theory Spec2Isabelle
  imports Main "HOL-Library.Word" "HOL-Library.Multiset"
begin

unbundle bit_operations_syntax

section \<open>The pool allocator of main.c\<close>

text \<open>
  The allocator of \<^verbatim>\<open>main.c\<close> keeps a doubly linked chain of block headers inside
  one static byte array \<^verbatim>\<open>memory_pool\<close>. The model below fixes the LP64 data model:
  \<^verbatim>\<open>size_t\<close> is a 64-bit word and \<^verbatim>\<open>sizeof (MemoryBlockHeader)\<close> is 32 (an 8-byte
  size, a 4-byte enum padded to 8, two 8-byte pointers).

  A pointer is \<^verbatim>\<open>NULL\<close> (\<open>None\<close>) or a byte offset from the first byte of
  \<^verbatim>\<open>memory_pool\<close> (\<open>Some k\<close> stands for \<^verbatim>\<open>memory_pool + k\<close>); offsets are integers, so a
  pointer below the pool has a negative offset, and pointer arithmetic does not wrap around
  (the pool is taken to lie inside the address space). Sizes are \<^verbatim>\<open>size_t\<close> values, whose
  arithmetic wraps around. The pool's bytes are read and written
  through header pointers only, so the pool is modelled as a typed heap: a function from
  the offset of a header to the header stored there. Static storage is zero-initialised,
  which gives the header with size 0, status \<^verbatim>\<open>FREE\<close> and two null pointers at every
  offset of the start state. The typed heap keeps headers at different offsets apart;
  the model therefore says nothing about a release of a pointer that lies inside the pool
  but is not the data address of a block of the chain, where the C code would reinterpret
  the bytes it finds.

  The fields \<^verbatim>\<open>size\<close> and \<^verbatim>\<open>next\<close> of the header are called \<open>size_h\<close> and \<open>next_h\<close>
  here. The state holds the three static variables of the program and, as \<open>stdout\<close>, the
  lines that \<^verbatim>\<open>My_Free\<close> prints.
\<close>

subsection \<open>Data\<close>

type_synonym size_t = "64 word"
type_synonym addr = int
type_synonym ptr = "addr option"

datatype BlockStatus = FREE | ALLOCATED

record MemoryBlockHeader =
  size_h :: size_t
  status :: BlockStatus
  next_h :: ptr
  prev :: ptr

definition MEMORY_POOL_SIZE :: int where
  "MEMORY_POOL_SIZE = 1024 * 10"

definition header_size :: size_t where
  "header_size = 32"

definition MIN_BLOCK_SIZE :: size_t where
  "MIN_BLOCK_SIZE = header_size"

text \<open>The largest value of \<^verbatim>\<open>size_t\<close>.\<close>

definition SIZE_MAX :: size_t where
  "SIZE_MAX = 18446744073709551615"

record state =
  heap :: "addr \<Rightarrow> MemoryBlockHeader"
  first_block :: ptr
  is_initialized :: int
  stdout :: "string list"

definition zero_header :: MemoryBlockHeader where
  "zero_header = \<lparr>size_h = 0, status = FREE, next_h = None, prev = None\<rparr>"

definition start_state :: state where
  "start_state = \<lparr>heap = (\<lambda>_. zero_header), first_block = None, is_initialized = 0, stdout = []\<rparr>"

subsection \<open>Field assignments through a header pointer\<close>

definition set_size :: "addr \<Rightarrow> size_t \<Rightarrow> state \<Rightarrow> state" where
  "set_size p v s = s\<lparr>heap := (heap s)(p := (heap s p)\<lparr>size_h := v\<rparr>)\<rparr>"

definition set_status :: "addr \<Rightarrow> BlockStatus \<Rightarrow> state \<Rightarrow> state" where
  "set_status p v s = s\<lparr>heap := (heap s)(p := (heap s p)\<lparr>status := v\<rparr>)\<rparr>"

definition set_next :: "addr \<Rightarrow> ptr \<Rightarrow> state \<Rightarrow> state" where
  "set_next p v s = s\<lparr>heap := (heap s)(p := (heap s p)\<lparr>next_h := v\<rparr>)\<rparr>"

definition set_prev :: "addr \<Rightarrow> ptr \<Rightarrow> state \<Rightarrow> state" where
  "set_prev p v s = s\<lparr>heap := (heap s)(p := (heap s p)\<lparr>prev := v\<rparr>)\<rparr>"

subsection \<open>Memory\_Init\<close>

definition Memory_Init :: "state \<Rightarrow> state" where
  "Memory_Init s =
     (if is_initialized s \<noteq> 0 then s
      else
        let s = s\<lparr>first_block := Some 0\<rparr>;
            s = set_size 0 (word_of_int MEMORY_POOL_SIZE - header_size) s;
            s = set_status 0 FREE s;
            s = set_next 0 None s;
            s = set_prev 0 None s
        in s\<lparr>is_initialized := 1\<rparr>)"

subsection \<open>My\_Malloc\<close>

text \<open>
  The body of the \<^verbatim>\<open>if\<close> inside the loop (lines 81 to 113): the optional split of the
  block \<open>current\<close>, the status change and the returned data pointer.
\<close>

definition take_block :: "state \<Rightarrow> size_t \<Rightarrow> addr \<Rightarrow> ptr \<times> state" where
  "take_block s sz current =
     (let s =
        (if size_h (heap s current) \<ge> sz + header_size + MIN_BLOCK_SIZE then
           let new_block = current + uint header_size + uint sz;
               s = set_size new_block (size_h (heap s current) - sz - header_size) s;
               s = set_status new_block FREE s;
               s = set_next new_block (next_h (heap s current)) s;
               s = set_prev new_block (Some current) s;
               s = set_size current sz s;
               s = set_next current (Some new_block) s
           in (case next_h (heap s new_block) of
                 None \<Rightarrow> s
               | Some n \<Rightarrow> set_prev n (Some new_block) s)
         else s);
          s = set_status current ALLOCATED s
      in (Some (current + uint header_size), s))"

text \<open>
  The \<^verbatim>\<open>while (current != NULL)\<close> loop. It need not end on an arbitrary heap (the
  \<^verbatim>\<open>next\<close> pointers may form a cycle), so the result is optional: \<open>None\<close> stands for
  a loop that never returns.
\<close>

partial_function (option) malloc_loop :: "state \<Rightarrow> size_t \<Rightarrow> ptr \<Rightarrow> (ptr \<times> state) option" where
  "malloc_loop s sz current =
     (case current of
        None \<Rightarrow> Some (None, s)
      | Some c \<Rightarrow>
          if status (heap s c) = FREE \<and> size_h (heap s c) \<ge> sz
          then Some (take_block s sz c)
          else malloc_loop s sz (next_h (heap s c)))"

declare malloc_loop.simps [code]

definition My_Malloc :: "state \<Rightarrow> size_t \<Rightarrow> (ptr \<times> state) option" where
  "My_Malloc s size_req =
     (let s = (if is_initialized s = 0 then Memory_Init s else s);
          sz = (size_req + 3) AND NOT 3
      in if sz = 0 then Some (None, s)
         else malloc_loop s sz (first_block s))"

subsection \<open>My\_Free\<close>

definition pool_error :: string where
  "pool_error = ''Error: Pointer outside memory pool'' @ [CHR 0x0A]"

definition My_Free :: "state \<Rightarrow> ptr \<Rightarrow> state" where
  "My_Free s p =
     (case p of
        None \<Rightarrow> s
      | Some a \<Rightarrow>
          let block = a - uint header_size in
          if block < 0 \<or> block \<ge> 0 + MEMORY_POOL_SIZE
          then s\<lparr>stdout := stdout s @ [pool_error]\<rparr>
          else
            let s = set_status block FREE s;
                next_block = next_h (heap s block);
                s = (case next_block of
                       None \<Rightarrow> s
                     | Some n \<Rightarrow>
                         if status (heap s n) = FREE then
                           let s = set_size block
                                     (size_h (heap s block) + (header_size + size_h (heap s n))) s;
                               s = set_next block (next_h (heap s n)) s
                           in (case next_h (heap s n) of
                                 None \<Rightarrow> s
                               | Some nn \<Rightarrow> set_prev nn (Some block) s)
                         else s);
                prev_block = prev (heap s block)
            in (case prev_block of
                  None \<Rightarrow> s
                | Some pb \<Rightarrow>
                    if status (heap s pb) = FREE then
                      let s = set_size pb
                                (size_h (heap s pb) + (header_size + size_h (heap s block))) s;
                          s = set_next pb (next_h (heap s block)) s
                      in (case next_h (heap s block) of
                            None \<Rightarrow> s
                          | Some nb \<Rightarrow> set_prev nb (Some pb) s)
                    else s))"

subsection \<open>The chain as a list of block addresses\<close>

text \<open>
  \<open>seg h p pv a bs q e\<close>: starting at pointer \<open>p\<close>, the \<^verbatim>\<open>next\<close> pointers of heap \<open>h\<close>
  run through exactly the headers at the addresses \<open>bs\<close> and then reach \<open>q\<close>; the first
  header lies at address \<open>a\<close> and has \<^verbatim>\<open>prev\<close> pointer \<open>pv\<close>, every later header has
  its list predecessor as \<^verbatim>\<open>prev\<close> and lies where the data region of that
  predecessor ends (\<open>block_end\<close>), and the data region of the last header ends at \<open>e\<close>.
\<close>

definition block_end :: "(addr \<Rightarrow> MemoryBlockHeader) \<Rightarrow> addr \<Rightarrow> addr" where
  "block_end h b = b + uint header_size + uint (size_h (h b))"

fun seg :: "(addr \<Rightarrow> MemoryBlockHeader) \<Rightarrow> ptr \<Rightarrow> ptr \<Rightarrow> addr \<Rightarrow> addr list \<Rightarrow> ptr \<Rightarrow> addr \<Rightarrow> bool" where
  "seg h p pv a [] q e = (p = q \<and> a = e)"
| "seg h p pv a (b # bs) q e =
     (p = Some b \<and> a = b \<and> prev (h b) = pv \<and>
      seg h (next_h (h b)) (Some b) (block_end h b) bs q e)"

text \<open>
  The blocks as they lie in the pool: the header at \<open>a\<close>, then the header right behind
  its data region, and so on up to the end of the pool.
\<close>

function layout :: "(addr \<Rightarrow> MemoryBlockHeader) \<Rightarrow> addr \<Rightarrow> addr list" where
  "layout h a =
     (if 0 \<le> a \<and> a < MEMORY_POOL_SIZE
      then a # layout h (block_end h a)
      else [])"
  by pat_completeness auto
termination
proof (relation "measure (\<lambda>(h, a). nat (MEMORY_POOL_SIZE - a))")
  fix h :: "addr \<Rightarrow> MemoryBlockHeader" and a :: addr
  assume "0 \<le> a \<and> a < MEMORY_POOL_SIZE"
  then have "MEMORY_POOL_SIZE - block_end h a < MEMORY_POOL_SIZE - a" "0 < MEMORY_POOL_SIZE - a"
    using uint_ge_0 [of "size_h (h a)"] unfolding block_end_def header_size_def
    by (simp_all del: uint_ge_0 unsigned_greater_eq)
  then show "((h, block_end h a), (h, a)) \<in> measure (\<lambda>(h, a). nat (MEMORY_POOL_SIZE - a))"
    by simp
qed simp

definition chain :: "state \<Rightarrow> addr list" where
  "chain s = layout (heap s) 0"

text \<open>
  The chain invariant: the list that starts at \<^verbatim>\<open>first_block\<close> is doubly linked, begins
  at the first byte of the pool, has no gap and no overlap between a block and its
  successor, and ends with the last byte of the pool. The \<^verbatim>\<open>next\<close> pointers from
  \<^verbatim>\<open>first_block\<close> then run through exactly the addresses \<open>chain s\<close>, in this order, so
  \<open>chain s\<close> is the chain that \<^verbatim>\<open>My_Malloc\<close> and \<^verbatim>\<open>Memory_Stats\<close> traverse.
\<close>

definition chain_inv :: "state \<Rightarrow> bool" where
  "chain_inv s = seg (heap s) (first_block s) None 0 (chain s) None MEMORY_POOL_SIZE"

text \<open>A block of the chain as the statistics report shows it: address, data size, status.\<close>

type_synonym block = "addr \<times> int \<times> BlockStatus"

definition block_at :: "(addr \<Rightarrow> MemoryBlockHeader) \<Rightarrow> addr \<Rightarrow> block" where
  "block_at h a = (a, uint (size_h (h a)), status (h a))"

definition blocks :: "state \<Rightarrow> block list" where
  "blocks s = map (block_at (heap s)) (chain s)"

fun no_adjacent_free :: "block list \<Rightarrow> bool" where
  "no_adjacent_free ((a, n, st) # (a', n', st') # bs) =
     (\<not> (st = FREE \<and> st' = FREE) \<and> no_adjacent_free ((a', n', st') # bs))"
| "no_adjacent_free bs = True"

subsection \<open>The operations as the specification words them, on the list of blocks\<close>

text \<open>
  These definitions follow the specification's description of \<open>allocate\<close> and
  \<open>release\<close>, not the C code; the theorems below compare them with the code.
\<close>

text \<open>The next multiple of 4 at or above a byte count, as an integer (no wrap-around).\<close>

definition round_up4_spec :: "int \<Rightarrow> int" where
  "round_up4_spec k = (k + 3) div 4 * 4"

definition first_fit_spec :: "int \<Rightarrow> block list \<Rightarrow> block option" where
  "first_fit_spec r bs = find (\<lambda>(a, n, st). st = FREE \<and> r \<le> n) bs"

fun allocate_spec :: "int \<Rightarrow> addr \<Rightarrow> block list \<Rightarrow> block list" where
  "allocate_spec r c [] = []"
| "allocate_spec r c ((a, n, st) # bs) =
     (if a = c then
        (if n \<ge> r + uint header_size + uint header_size
         then (a, r, ALLOCATED) # (a + uint header_size + r, n - r - uint header_size, FREE) # bs
         else (a, n, ALLOCATED) # bs)
      else (a, n, st) # allocate_spec r c bs)"

fun mark_free_spec :: "addr \<Rightarrow> block list \<Rightarrow> block list" where
  "mark_free_spec b [] = []"
| "mark_free_spec b ((a, n, st) # bs) =
     (if a = b then (a, n, FREE) # bs else (a, n, st) # mark_free_spec b bs)"

fun forward_coalesce_spec :: "addr \<Rightarrow> block list \<Rightarrow> block list" where
  "forward_coalesce_spec b ((a, n, st) # (a', n', st') # bs) =
     (if a = b then
        (if st' = FREE then (a, n + (uint header_size + n'), st) # bs
         else (a, n, st) # (a', n', st') # bs)
      else (a, n, st) # forward_coalesce_spec b ((a', n', st') # bs))"
| "forward_coalesce_spec b bs = bs"

fun backward_coalesce_spec :: "addr \<Rightarrow> block list \<Rightarrow> block list" where
  "backward_coalesce_spec b ((a, n, st) # (a', n', st') # bs) =
     (if a' = b then
        (if st = FREE then (a, n + (uint header_size + n'), st) # bs
         else (a, n, st) # (a', n', st') # bs)
      else (a, n, st) # backward_coalesce_spec b ((a', n', st') # bs))"
| "backward_coalesce_spec b bs = bs"

definition release_spec :: "addr \<Rightarrow> block list \<Rightarrow> block list" where
  "release_spec b bs = backward_coalesce_spec b (forward_coalesce_spec b (mark_free_spec b bs))"

subsection \<open>Auxiliary definitions for the proofs\<close>

definition last_ptr :: "ptr \<Rightarrow> addr list \<Rightarrow> ptr" where
  "last_ptr pv bs = (if bs = [] then pv else Some (last bs))"

text \<open>The heap after a split of block \<open>c\<close> for a request of \<open>sz\<close> bytes, in closed form.\<close>

definition split_heap :: "(addr \<Rightarrow> MemoryBlockHeader) \<Rightarrow> size_t \<Rightarrow> addr \<Rightarrow> addr \<Rightarrow> MemoryBlockHeader" where
  "split_heap h sz c =
     (\<lambda>x. if x = c then (h c)\<lparr>size_h := sz, status := ALLOCATED, next_h := Some (c + 32 + uint sz)\<rparr>
          else if x = c + 32 + uint sz
               then \<lparr>size_h = size_h (h c) - sz - header_size, status = FREE,
                     next_h = next_h (h c), prev = Some c\<rparr>
          else if Some x = next_h (h c) then (h x)\<lparr>prev := Some (c + 32 + uint sz)\<rparr>
          else h x)"

text \<open>
  The three steps of \<^verbatim>\<open>My_Free\<close> on a block \<open>b\<close>. Both merges are the same
  assignments: \<open>absorb s b n\<close> folds the block \<open>n\<close> into its predecessor \<open>b\<close>.
\<close>

definition absorb :: "state \<Rightarrow> addr \<Rightarrow> addr \<Rightarrow> state" where
  "absorb s b n =
     (let s = set_size b (size_h (heap s b) + (header_size + size_h (heap s n))) s;
          s = set_next b (next_h (heap s n)) s
      in (case next_h (heap s n) of
            None \<Rightarrow> s
          | Some nn \<Rightarrow> set_prev nn (Some b) s))"

definition free_fwd :: "state \<Rightarrow> addr \<Rightarrow> state" where
  "free_fwd s b =
     (case next_h (heap s b) of
        None \<Rightarrow> s
      | Some n \<Rightarrow> if status (heap s n) = FREE then absorb s b n else s)"

definition free_bwd :: "state \<Rightarrow> addr \<Rightarrow> state" where
  "free_bwd s b =
     (case prev (heap s b) of
        None \<Rightarrow> s
      | Some pb \<Rightarrow> if status (heap s pb) = FREE then absorb s pb b else s)"

definition absorb_heap :: "(addr \<Rightarrow> MemoryBlockHeader) \<Rightarrow> addr \<Rightarrow> addr \<Rightarrow> addr \<Rightarrow> MemoryBlockHeader" where
  "absorb_heap h b n =
     (\<lambda>x. if x = b
          then (h b)\<lparr>size_h := size_h (h b) + (header_size + size_h (h n)), next_h := next_h (h n)\<rparr>
          else if Some x = next_h (h n) then (h x)\<lparr>prev := Some b\<rparr>
          else h x)"

text \<open>The header that \<^verbatim>\<open>Memory_Init\<close> writes at the start of the pool.\<close>

definition init_header :: MemoryBlockHeader where
  "init_header = \<lparr>size_h = 10208, status = FREE, next_h = None, prev = None\<rparr>"

definition block_status :: "block \<Rightarrow> BlockStatus" where
  "block_status b = snd (snd b)"

text \<open>The addresses of the blocks that are \<^verbatim>\<open>ALLOCATED\<close>.\<close>

definition allocated_addrs :: "block list \<Rightarrow> addr set" where
  "allocated_addrs bs = set (map fst (filter (\<lambda>x. block_status x = ALLOCATED) bs))"

definition count_status :: "BlockStatus \<Rightarrow> block list \<Rightarrow> nat" where
  "count_status st bs = length (filter (\<lambda>b. block_status b = st) bs)"

subsection \<open>Callers\<close>

text \<open>
  The arguments of \<^verbatim>\<open>My_Free\<close> that the specification covers: a null pointer, a pointer
  whose header address lies outside the pool, and the data pointer of a block of the chain.
\<close>

definition release_ok :: "state \<Rightarrow> ptr \<Rightarrow> bool" where
  "release_ok s p =
     (case p of
        None \<Rightarrow> True
      | Some a \<Rightarrow>
          a - uint header_size < 0 \<or> MEMORY_POOL_SIZE \<le> a - uint header_size \<or>
          a - uint header_size \<in> set (chain s))"

text \<open>A run of allocations that collects the returned pointers, and a run of releases.\<close>

fun allocate_all :: "state \<Rightarrow> size_t list \<Rightarrow> (ptr list \<times> state) option" where
  "allocate_all s [] = Some ([], s)"
| "allocate_all s (n # ns) =
     (case My_Malloc s n of
        None \<Rightarrow> None
      | Some (p, s') \<Rightarrow>
          (case allocate_all s' ns of
             None \<Rightarrow> None
           | Some (ps, s'') \<Rightarrow> Some (p # ps, s'')))"

fun release_all :: "state \<Rightarrow> ptr list \<Rightarrow> state" where
  "release_all s [] = s"
| "release_all s (p # ps) = release_all (My_Free s p) ps"

text \<open>
  The first steps of \<^verbatim>\<open>main\<close>: \<^verbatim>\<open>Memory_Init\<close> and the three allocations of 100, 200
  and 300 bytes (\<open>scenario_A\<close>), then the release of the second pointer (\<open>scenario_B\<close>)
  and of the first (\<open>scenario_C\<close>).
\<close>

definition scenario_A :: "(ptr \<times> ptr \<times> ptr \<times> state) option" where
  "scenario_A =
     (case My_Malloc (Memory_Init start_state) 100 of
        None \<Rightarrow> None
      | Some (ptr1, s) \<Rightarrow>
          (case My_Malloc s 200 of
             None \<Rightarrow> None
           | Some (ptr2, s) \<Rightarrow>
               (case My_Malloc s 300 of
                  None \<Rightarrow> None
                | Some (ptr3, s) \<Rightarrow> Some (ptr1, ptr2, ptr3, s))))"

definition scenario_B :: "(ptr \<times> ptr \<times> ptr \<times> state) option" where
  "scenario_B = map_option (\<lambda>(ptr1, ptr2, ptr3, s). (ptr1, ptr2, ptr3, My_Free s ptr2)) scenario_A"

definition scenario_C :: "(ptr \<times> ptr \<times> ptr \<times> state) option" where
  "scenario_C = map_option (\<lambda>(ptr1, ptr2, ptr3, s). (ptr1, ptr2, ptr3, My_Free s ptr1)) scenario_B"

definition scenario_blocks :: "(ptr \<times> ptr \<times> ptr \<times> state) option \<Rightarrow> block list option" where
  "scenario_blocks r = map_option (\<lambda>(ptr1, ptr2, ptr3, s). blocks s) r"

definition scenario_handles :: "(ptr \<times> ptr \<times> ptr \<times> state) option \<Rightarrow> (ptr \<times> ptr \<times> ptr) option" where
  "scenario_handles r = map_option (\<lambda>(ptr1, ptr2, ptr3, s). (ptr1, ptr2, ptr3)) r"

definition scenario_state :: "(ptr \<times> ptr \<times> ptr \<times> state) option \<Rightarrow> state" where
  "scenario_state r = (case r of None \<Rightarrow> start_state | Some (ptr1, ptr2, ptr3, s) \<Rightarrow> s)"

text \<open>The data region of a block: the bytes from the end of its header to its end.\<close>

definition data_region :: "block \<Rightarrow> addr set" where
  "data_region b = {fst b + uint header_size ..< fst b + uint header_size + fst (snd b)}"

text \<open>The number of bytes that the blocks of the chain occupy, headers included.\<close>

definition chain_bytes :: "state \<Rightarrow> int" where
  "chain_bytes s = sum_list (map (\<lambda>b. uint header_size + fst (snd b)) (blocks s))"

section \<open>Properties of the chain\<close>

lemma last_ptr_simps [simp]:
  "last_ptr pv [] = pv"
  "last_ptr pv (b # bs) = last_ptr (Some b) bs"
  "last_ptr pv (bs @ [b]) = Some b"
  by (auto simp: last_ptr_def)

lemma block_end_ge: "b + 32 \<le> block_end h b"
  by (simp add: block_end_def header_size_def)

lemma seg_append:
  "seg h p pv a (xs @ ys) q e \<longleftrightarrow>
     (\<exists>p' a'. seg h p pv a xs p' a' \<and> seg h p' (last_ptr pv xs) a' ys q e)"
  by (induction xs arbitrary: p pv a) auto

lemma seg_fields:
  "(\<And>x. x \<in> set bs \<Longrightarrow>
      size_h (h' x) = size_h (h x) \<and> next_h (h' x) = next_h (h x) \<and> prev (h' x) = prev (h x))
   \<Longrightarrow> seg h' p pv a bs q e = seg h p pv a bs q e"
  by (induction bs arbitrary: p pv a) (auto simp: block_end_def)

lemma seg_frame:
  "(\<And>x. x \<in> set bs \<Longrightarrow> h' x = h x) \<Longrightarrow> seg h' p pv a bs q e = seg h p pv a bs q e"
  by (rule seg_fields) simp

lemma seg_bounds:
  "seg h p pv a bs q e \<Longrightarrow> a \<le> e \<and> (\<forall>x \<in> set bs. a \<le> x \<and> block_end h x \<le> e)"
proof (induction bs arbitrary: p pv a)
  case Nil
  then show ?case by simp
next
  case (Cons b bs)
  from Cons.prems have s: "seg h (next_h (h b)) (Some b) (block_end h b) bs q e"
    and ba: "b = a" by auto
  from Cons.IH [OF s] have 1: "block_end h b \<le> e"
    and 2: "\<forall>x\<in>set bs. block_end h b \<le> x \<and> block_end h x \<le> e"
    by auto
  have 3: "b \<le> block_end h b" using block_end_ge [of b h] by simp
  show ?case using 1 2 3 ba by auto
qed

lemma seg_layout:
  "seg h p pv a bs q MEMORY_POOL_SIZE \<Longrightarrow> 0 \<le> a \<Longrightarrow> layout h a = bs"
proof (induction bs arbitrary: p pv a)
  case Nil
  then show ?case by simp
next
  case (Cons b bs)
  from Cons.prems have s: "seg h (next_h (h b)) (Some b) (block_end h b) bs q MEMORY_POOL_SIZE"
    and ba: "b = a" by auto
  from seg_bounds [OF Cons.prems(1)] have "block_end h a \<le> MEMORY_POOL_SIZE" using ba by simp
  then have lt: "a < MEMORY_POOL_SIZE" using block_end_ge [of a h] by simp
  have "0 \<le> block_end h b" using block_end_ge [of b h] ba Cons.prems(2) by simp
  then have "layout h (block_end h b) = bs"
    using Cons.IH [OF s] by simp
  then show ?case using lt Cons.prems(2) ba by simp
qed

lemma chain_eq:
  "seg (heap s) (first_block s) None 0 bs None MEMORY_POOL_SIZE \<Longrightarrow> chain s = bs"
  using seg_layout [of "heap s" "first_block s" None 0 bs None]
  by (simp add: chain_def)

lemma chain_invI:
  "seg (heap s) (first_block s) None 0 bs None MEMORY_POOL_SIZE \<Longrightarrow> chain_inv s"
  using chain_eq [of s bs] by (simp add: chain_inv_def)

lemma chain_invD:
  "chain_inv s \<Longrightarrow> seg (heap s) (first_block s) None 0 (chain s) None MEMORY_POOL_SIZE"
  by (simp add: chain_inv_def)

lemma heap_set [simp]:
  "heap (set_size p v s) = (heap s)(p := (heap s p)\<lparr>size_h := v\<rparr>)"
  "heap (set_status p st s) = (heap s)(p := (heap s p)\<lparr>status := st\<rparr>)"
  "heap (set_next p q s) = (heap s)(p := (heap s p)\<lparr>next_h := q\<rparr>)"
  "heap (set_prev p q s) = (heap s)(p := (heap s p)\<lparr>prev := q\<rparr>)"
  by (simp_all add: set_size_def set_status_def set_next_def set_prev_def)

lemma first_block_set [simp]:
  "first_block (set_size p v s) = first_block s"
  "first_block (set_status p st s) = first_block s"
  "first_block (set_next p q s) = first_block s"
  "first_block (set_prev p q s) = first_block s"
  by (simp_all add: set_size_def set_status_def set_next_def set_prev_def)

lemma is_initialized_set [simp]:
  "is_initialized (set_size p v s) = is_initialized s"
  "is_initialized (set_status p st s) = is_initialized s"
  "is_initialized (set_next p q s) = is_initialized s"
  "is_initialized (set_prev p q s) = is_initialized s"
  by (simp_all add: set_size_def set_status_def set_next_def set_prev_def)

lemma stdout_set [simp]:
  "stdout (set_size p v s) = stdout s"
  "stdout (set_status p st s) = stdout s"
  "stdout (set_next p q s) = stdout s"
  "stdout (set_prev p q s) = stdout s"
  by (simp_all add: set_size_def set_status_def set_next_def set_prev_def)

lemma state_eqI:
  "heap s = heap t \<Longrightarrow> first_block s = first_block t \<Longrightarrow> is_initialized s = is_initialized t
   \<Longrightarrow> stdout s = stdout t \<Longrightarrow> (s :: state) = t"
  by simp

lemma seg_split_at:
  assumes "seg h p pv a bs q e" and "c \<in> set bs"
  obtains xs ys where "bs = xs @ c # ys"
    and "seg h p pv a xs (Some c) c"
    and "prev (h c) = last_ptr pv xs"
    and "seg h (next_h (h c)) (Some c) (block_end h c) ys q e"
    and "\<forall>x\<in>set xs. block_end h x \<le> c"
    and "\<forall>y\<in>set ys. block_end h c \<le> y"
    and "block_end h c \<le> e" and "a \<le> c"
proof -
  from assms(2) obtain xs ys where bs: "bs = xs @ c # ys"
    by (auto simp: in_set_conv_decomp)
  from assms(1) obtain p' a' where 1: "seg h p pv a xs p' a'"
    and 2: "seg h p' (last_ptr pv xs) a' (c # ys) q e"
    unfolding bs seg_append by blast
  from 2 have p': "p' = Some c" and a': "a' = c" and pr: "prev (h c) = last_ptr pv xs"
    and 3: "seg h (next_h (h c)) (Some c) (block_end h c) ys q e" by auto
  from seg_bounds [OF 1] have 4: "\<forall>x\<in>set xs. block_end h x \<le> c" "a \<le> c" using a' by auto
  from seg_bounds [OF 3] have 5: "\<forall>y\<in>set ys. block_end h c \<le> y" "block_end h c \<le> e" by auto
  show thesis using that [OF bs] 1 p' a' pr 3 4 5 by simp
qed

lemma split_test_uint:
  fixes sz n :: size_t
  assumes "sz \<le> n" and "uint n \<le> 10240"
  shows "(sz + header_size + MIN_BLOCK_SIZE \<le> n) = (uint sz + 64 \<le> uint n)"
proof -
  have a: "uint sz \<le> uint n" using assms(1) by (simp add: word_le_def)
  have "uint (sz + 32 + 32) = (uint sz + 64) mod 2 ^ 64"
    by (simp add: uint_word_ariths add.assoc take_bit_eq_mod)
  also have "\<dots> = uint sz + 64" using a assms(2) by simp
  finally show ?thesis by (simp add: word_le_def header_size_def MIN_BLOCK_SIZE_def)
qed

lemma split_rest_uint:
  fixes sz n :: size_t
  assumes "uint sz + 64 \<le> uint n"
  shows "uint (n - sz - header_size) = uint n - uint sz - 32"
proof -
  have "uint (n - sz - 32) = (uint n - uint sz - 32) mod 2 ^ 64"
    by (simp add: uint_word_ariths take_bit_eq_mod diff_diff_eq mod_simps)
  also have "\<dots> = uint n - uint sz - 32"
    using assms uint_lt2p [of n] uint_ge_0 [of sz] by (simp del: uint_ge_0 unsigned_greater_eq)
  finally show ?thesis by (simp add: header_size_def)
qed

lemma merge_size_uint:
  fixes a b :: size_t
  assumes "uint a + 32 + uint b \<le> 10240"
  shows "uint (a + (header_size + b)) = uint a + 32 + uint b"
proof -
  have "uint (a + (32 + b)) = (uint a + 32 + uint b) mod 2 ^ 64"
    by (simp add: uint_word_ariths take_bit_eq_mod mod_simps add.assoc)
  also have "\<dots> = uint a + 32 + uint b"
    using assms uint_ge_0 [of a] uint_ge_0 [of b] by (simp del: uint_ge_0 unsigned_greater_eq)
  finally show ?thesis by (simp add: header_size_def)
qed

lemma uint_nonneg: "0 \<le> uint (w :: size_t)"
  by simp

lemma take_block_fst: "fst (take_block s sz c) = Some (c + 32)"
  by (simp add: take_block_def Let_def header_size_def)

lemma take_block_split_heap:
  assumes "sz + header_size + MIN_BLOCK_SIZE \<le> size_h (heap s c)"
    and "\<forall>n. next_h (heap s c) = Some n \<longrightarrow> n \<noteq> c \<and> n \<noteq> c + 32 + uint sz"
  shows "snd (take_block s sz c) = s\<lparr>heap := split_heap (heap s) sz c\<rparr>"
proof (rule state_eqI)
  have nb: "c + 32 + uint sz \<noteq> c" using uint_ge_0 [of sz] by (simp del: uint_ge_0 unsigned_greater_eq)
  show "heap (snd (take_block s sz c)) = heap (s\<lparr>heap := split_heap (heap s) sz c\<rparr>)"
    using assms nb
    by (auto simp: take_block_def Let_def split_heap_def header_size_def fun_eq_iff split: option.splits)
qed (simp_all add: take_block_def Let_def split: option.splits)

lemma take_block_nosplit_heap:
  assumes "\<not> sz + header_size + MIN_BLOCK_SIZE \<le> size_h (heap s c)"
  shows "snd (take_block s sz c) = s\<lparr>heap := (heap s)(c := (heap s c)\<lparr>status := ALLOCATED\<rparr>)\<rparr>"
  using assms by (simp add: take_block_def Let_def set_status_def)

lemma seg_Cons_frame:
  assumes "seg h (Some n) pv a (n # ys) q e"
    and "\<forall>y\<in>set ys. h' y = h y" 
    and "size_h (h' n) = size_h (h n)" and "next_h (h' n) = next_h (h n)" and "prev (h' n) = pv'"
  shows "seg h' (Some n) pv' a (n # ys) q e"
proof -
  have "block_end h' n = block_end h n" using assms(3) by (simp add: block_end_def)
  moreover have "seg h' (next_h (h n)) (Some n) (block_end h n) ys q e = seg h (next_h (h n)) (Some n) (block_end h n) ys q e"
    using assms(2) by (intro seg_frame) simp
  moreover from assms(1) have "a = n" "seg h (next_h (h n)) (Some n) (block_end h n) ys q e"
    by simp_all
  ultimately show ?thesis using assms(4,5) by simp
qed

lemma seg_split_heap:
  assumes sg: "seg h p pv a (xs @ c # ys) None e"
    and big: "uint sz + 64 \<le> uint (size_h (h c))"
  shows "seg (split_heap h sz c) p pv a (xs @ c # (c + 32 + uint sz) # ys) None e
    \<and> (\<forall>x\<in>set xs. x \<noteq> c \<and> block_at (split_heap h sz c) x = block_at h x)
    \<and> (\<forall>y\<in>set ys. block_at (split_heap h sz c) y = block_at h y)
    \<and> block_at (split_heap h sz c) c = (c, uint sz, ALLOCATED)
    \<and> block_at (split_heap h sz c) (c + 32 + uint sz)
        = (c + 32 + uint sz, uint (size_h (h c)) - uint sz - 32, FREE)"
proof -
  let ?nb = "c + 32 + uint sz"
  let ?h = "split_heap h sz c"
  have cin: "c \<in> set (xs @ c # ys)" by simp
  from sg obtain p' a' where 1: "seg h p pv a xs p' a'"
    and 2: "seg h p' (last_ptr pv xs) a' (c # ys) None e"
    unfolding seg_append by blast
  from 2 have p': "p' = Some c" and a': "a' = c" and pr: "prev (h c) = last_ptr pv xs"
    and 3: "seg h (next_h (h c)) (Some c) (block_end h c) ys None e" by auto
  from seg_bounds [OF 1] have 4: "\<forall>x\<in>set xs. block_end h x \<le> c" using a' by auto
  from seg_bounds [OF 3] have 5: "\<forall>y\<in>set ys. block_end h c \<le> y" by auto
  have sz0: "0 \<le> uint sz" by simp
  have nb_lt: "?nb + 32 \<le> block_end h c" using big by (simp add: block_end_def header_size_def)
  have c_lt: "c < ?nb" using sz0 by linarith
  have xs_lt: "\<forall>x\<in>set xs. x < c"
  proof
    fix x assume "x \<in> set xs"
    then have "block_end h x \<le> c" using 4 by blast
    then show "x < c" using block_end_ge [of x h] by linarith
  qed
  have ys_gt: "\<forall>y\<in>set ys. ?nb < y"
  proof
    fix y assume "y \<in> set ys"
    then have "block_end h c \<le> y" using 5 by blast
    then show "?nb < y" using nb_lt by linarith
  qed
  have nxt_ys: "next_h (h c) = (case ys of [] \<Rightarrow> None | y # _ \<Rightarrow> Some y)"
    using 3 by (cases ys) auto
  have fr_xs: "\<forall>x\<in>set xs. ?h x = h x"
  proof
    fix x assume x: "x \<in> set xs"
    then have "x < c" using xs_lt by blast
    moreover have "Some x \<noteq> next_h (h c)"
    proof (cases ys)
      case Nil then show ?thesis using nxt_ys by simp
    next
      case (Cons y ys')
      then have "?nb < y" using ys_gt by simp
      then show ?thesis using nxt_ys Cons c_lt \<open>x < c\<close> by simp
    qed
    ultimately show "?h x = h x" using c_lt by (simp add: split_heap_def)
  qed
  have A: "seg ?h p pv a xs (Some c) c"
    using 1 p' a' fr_xs seg_frame [of xs ?h h p pv a "Some c" c] by simp
  have hc: "?h c = (h c)\<lparr>size_h := sz, status := ALLOCATED, next_h := Some ?nb\<rparr>"
    by (simp add: split_heap_def)
  have hnb: "?h ?nb = \<lparr>size_h = size_h (h c) - sz - header_size, status = FREE,
                     next_h = next_h (h c), prev = Some c\<rparr>"
    using c_lt by (simp add: split_heap_def)
  have end_c: "block_end ?h c = ?nb" by (simp add: hc block_end_def header_size_def)
  have "uint (size_h (?h ?nb)) = uint (size_h (h c)) - uint sz - 32"
    using split_rest_uint [OF big] by (simp add: hnb)
  then have end_nb: "block_end ?h ?nb = block_end h c"
    by (simp add: block_end_def header_size_def)
  have B: "seg ?h (next_h (h c)) (Some ?nb) (block_end h c) ys None e"
  proof (cases ys)
    case Nil
    then show ?thesis using 3 by simp
  next
    case (Cons y ys')
    then have y: "next_h (h c) = Some y" using nxt_ys by simp
    have ygt: "?nb < y" using ys_gt Cons by simp
    have hy: "?h y = (h y)\<lparr>prev := Some ?nb\<rparr>"
      using ygt c_lt y by (simp add: split_heap_def)
    have sy: "seg h (Some y) (Some c) (block_end h c) (y # ys') None e" using 3 Cons y by simp
    then have "\<forall>z\<in>set ys'. block_end h y \<le> z" using seg_bounds [of h "next_h (h y)" "Some y" "block_end h y" ys' None e] by auto
    then have "\<forall>z\<in>set ys'. y < z" using block_end_ge [of y h] by fastforce
    then have "\<forall>z\<in>set ys'. ?h z = h z"
      using ygt c_lt y by (auto simp: split_heap_def)
    then have "seg ?h (Some y) (Some ?nb) (block_end h c) (y # ys') None e"
      using seg_Cons_frame [OF sy, of ?h "Some ?nb"] hy by simp
    then show ?thesis using Cons y by simp
  qed
  have "seg ?h (Some c) (last_ptr pv xs) c (c # ?nb # ys) None e"
    using B pr by (simp add: hc hnb end_c end_nb)
  then have C: "seg ?h p pv a (xs @ c # ?nb # ys) None e"
    using A unfolding seg_append by blast
  have D: "\<forall>x\<in>set xs. x \<noteq> c \<and> block_at ?h x = block_at h x"
    using fr_xs xs_lt by (auto simp: block_at_def)
  have E: "\<forall>y\<in>set ys. block_at ?h y = block_at h y"
  proof
    fix y assume "y \<in> set ys"
    then have "?nb < y" using ys_gt by blast
    then show "block_at ?h y = block_at h y"
      using c_lt by (simp add: block_at_def split_heap_def)
  qed
  have F: "block_at ?h c = (c, uint sz, ALLOCATED)" by (simp add: block_at_def hc)
  have G: "block_at ?h ?nb = (?nb, uint (size_h (h c)) - uint sz - 32, FREE)"
    using split_rest_uint [OF big] by (simp add: block_at_def hnb)
  show ?thesis using C D E F G by blast
qed

lemma uint_header_size [simp]: "uint header_size = 32"
  by (simp add: header_size_def)

lemma malloc_loop_seg:
  "seg (heap s) p pv a bs None e \<Longrightarrow>
   malloc_loop s sz p =
     Some (case find (\<lambda>b. status (heap s b) = FREE \<and> sz \<le> size_h (heap s b)) bs of
             None \<Rightarrow> (None, s)
           | Some c \<Rightarrow> take_block s sz c)"
proof (induction bs arbitrary: p pv a)
  case Nil
  then show ?case by (subst malloc_loop.simps) simp
next
  case (Cons b bs)
  from Cons.prems have p: "p = Some b"
    and s: "seg (heap s) (next_h (heap s b)) (Some b) (block_end (heap s) b) bs None e" by simp_all
  show ?case
    by (subst malloc_loop.simps) (simp add: p Cons.IH [OF s])
qed

lemma first_fit_spec_map:
  "first_fit_spec (uint sz) (map (block_at h) bs) =
   map_option (block_at h) (find (\<lambda>b. status (h b) = FREE \<and> sz \<le> size_h (h b)) bs)"
  by (induction bs) (auto simp: first_fit_spec_def block_at_def word_le_def)

lemma allocate_spec_append:
  "\<forall>x\<in>set X. fst x \<noteq> c \<Longrightarrow>
   allocate_spec r c (X @ (c, n, st) # Y) =
     X @ (if n \<ge> r + 64 then [(c, r, ALLOCATED), (c + 32 + r, n - r - 32, FREE)]
          else [(c, n, ALLOCATED)]) @ Y"
  by (induction X) auto

lemma find_in_set: "find P bs = Some c \<Longrightarrow> c \<in> set bs \<and> P c"
  by (induction bs) (auto split: if_splits)

lemma take_block_seg:
  assumes sg: "seg (heap s) p None 0 bs None MEMORY_POOL_SIZE"
    and c: "c \<in> set bs" and le: "sz \<le> size_h (heap s c)"
    and s': "s' = snd (take_block s sz c)"
  shows "\<exists>bs'. seg (heap s') p None 0 bs' None MEMORY_POOL_SIZE \<and>
           map (block_at (heap s')) bs' = allocate_spec (uint sz) c (map (block_at (heap s)) bs)"
    and "first_block s' = first_block s" and "is_initialized s' = is_initialized s"
    and "stdout s' = stdout s"
proof -
  let ?h = "heap s"
  from sg c obtain xs ys where bs: "bs = xs @ c # ys"
    and sx: "seg ?h p None 0 xs (Some c) c"
    and pr: "prev (?h c) = last_ptr None xs"
    and nx: "seg ?h (next_h (?h c)) (Some c) (block_end ?h c) ys None MEMORY_POOL_SIZE"
    and pre: "\<forall>x\<in>set xs. block_end ?h x \<le> c"
    and post: "\<forall>y\<in>set ys. block_end ?h c \<le> y"
    and e: "block_end ?h c \<le> MEMORY_POOL_SIZE" and c0: "0 \<le> c"
    by (rule seg_split_at)
  have bound: "uint (size_h (?h c)) \<le> 10240"
    using e c0 by (simp add: block_end_def MEMORY_POOL_SIZE_def)
  have xs_ne: "\<forall>x\<in>set xs. x \<noteq> c"
  proof
    fix x assume "x \<in> set xs"
    then have "block_end ?h x \<le> c" using pre by blast
    then show "x \<noteq> c" using block_end_ge [of x ?h] by linarith
  qed
  have X: "\<forall>x\<in>set (map (block_at ?h) xs). fst x \<noteq> c"
    using xs_ne by (auto simp: block_at_def)
  have old: "map (block_at ?h) bs
      = map (block_at ?h) xs @ (c, uint (size_h (?h c)), status (?h c)) # map (block_at ?h) ys"
    by (simp add: bs block_at_def)
  show "first_block s' = first_block s" "is_initialized s' = is_initialized s" "stdout s' = stdout s"
    by (simp_all add: s' take_block_def Let_def split: option.splits)
  show "\<exists>bs'. seg (heap s') p None 0 bs' None MEMORY_POOL_SIZE \<and>
           map (block_at (heap s')) bs' = allocate_spec (uint sz) c (map (block_at (heap s)) bs)"
  proof (cases "uint sz + 64 \<le> uint (size_h (?h c))")
    case True
    let ?nb = "c + 32 + uint sz"
    have test: "sz + header_size + MIN_BLOCK_SIZE \<le> size_h (?h c)"
      using split_test_uint [OF le bound] True by simp
    have "\<forall>n. next_h (?h c) = Some n \<longrightarrow> n \<noteq> c \<and> n \<noteq> ?nb"
    proof (intro allI impI)
      fix n assume n: "next_h (?h c) = Some n"
      then obtain ys' where "ys = n # ys'" using nx by (cases ys) auto
      then have "block_end ?h c \<le> n" using post by simp
      then show "n \<noteq> c \<and> n \<noteq> ?nb" using True uint_ge_0 [of sz]
        by (simp add: block_end_def del: uint_ge_0 unsigned_greater_eq)
    qed
    then have h': "heap s' = split_heap ?h sz c"
      using take_block_split_heap [OF test] s' by simp
    from seg_split_heap [OF sg [unfolded bs] True]
    have 1: "seg (heap s') p None 0 (xs @ c # ?nb # ys) None MEMORY_POOL_SIZE"
      and 2: "\<forall>x\<in>set xs. block_at (heap s') x = block_at ?h x"
      and 3: "\<forall>y\<in>set ys. block_at (heap s') y = block_at ?h y"
      and 4: "block_at (heap s') c = (c, uint sz, ALLOCATED)"
      and 5: "block_at (heap s') ?nb = (?nb, uint (size_h (?h c)) - uint sz - 32, FREE)"
      unfolding h' by blast+
    have "map (block_at (heap s')) (xs @ c # ?nb # ys)
        = map (block_at ?h) xs @ [(c, uint sz, ALLOCATED), (?nb, uint (size_h (?h c)) - uint sz - 32, FREE)]
          @ map (block_at ?h) ys"
      using 2 3 4 5 by simp
    also have "\<dots> = allocate_spec (uint sz) c (map (block_at ?h) bs)"
      unfolding old using True by (simp add: allocate_spec_append [OF X])
    finally show ?thesis using 1 by blast
  next
    case False
    have test: "\<not> sz + header_size + MIN_BLOCK_SIZE \<le> size_h (?h c)"
      using split_test_uint [OF le bound] False by simp
    have h': "heap s' = ?h(c := (?h c)\<lparr>status := ALLOCATED\<rparr>)"
      using take_block_nosplit_heap [OF test] s' by simp
    have 1: "seg (heap s') p None 0 bs None MEMORY_POOL_SIZE"
      using sg seg_fields [of bs "heap s'" ?h p None 0 None MEMORY_POOL_SIZE] by (simp add: h')
    have "map (block_at (heap s')) bs
        = map (block_at ?h) xs @ [(c, uint (size_h (?h c)), ALLOCATED)] @ map (block_at ?h) ys"
      using xs_ne post block_end_ge [of c ?h] unfolding bs h'
      by (auto simp: block_at_def)
    also have "\<dots> = allocate_spec (uint sz) c (map (block_at ?h) bs)"
      unfolding old using False by (simp add: allocate_spec_append [OF X])
    finally show ?thesis using 1 by blast
  qed
qed

lemma My_Free_steps_raw:
  "My_Free s (Some a) =
     (let block = a - uint header_size in
      if block < 0 \<or> block \<ge> 0 + MEMORY_POOL_SIZE then s\<lparr>stdout := stdout s @ [pool_error]\<rparr>
      else free_bwd (free_fwd (set_status block FREE s) block) block)"
  unfolding My_Free_def free_bwd_def free_fwd_def absorb_def Let_def by simp

lemma My_Free_steps:
  "My_Free s (Some a) =
     (if a - 32 < 0 \<or> a - 32 \<ge> MEMORY_POOL_SIZE then s\<lparr>stdout := stdout s @ [pool_error]\<rparr>
      else free_bwd (free_fwd (set_status (a - 32) FREE s) (a - 32)) (a - 32))"
  unfolding My_Free_steps_raw Let_def by (simp add: header_size_def)

lemma absorb_fields [simp]:
  "first_block (absorb s b n) = first_block s"
  "is_initialized (absorb s b n) = is_initialized s"
  "stdout (absorb s b n) = stdout s"
  by (simp_all add: absorb_def Let_def split: option.splits)

lemma absorb_heap_eq:
  assumes "n \<noteq> b" and "\<forall>nn. next_h (heap s n) = Some nn \<longrightarrow> nn \<noteq> b"
  shows "heap (absorb s b n) = absorb_heap (heap s) b n"
  using assms
  by (auto simp: absorb_def absorb_heap_def Let_def fun_eq_iff split: option.splits)

lemma seg_absorb_heap:
  assumes sg: "seg h p pv a (xs @ b # n # ys) None e"
    and a0: "0 \<le> a" and e: "e \<le> 10240"
  shows "seg (absorb_heap h b n) p pv a (xs @ b # ys) None e
    \<and> (\<forall>x\<in>set xs. x \<noteq> b \<and> x \<noteq> n \<and> block_at (absorb_heap h b n) x = block_at h x)
    \<and> (\<forall>y\<in>set ys. y \<noteq> b \<and> block_at (absorb_heap h b n) y = block_at h y)
    \<and> block_at (absorb_heap h b n) b = (b, uint (size_h (h b)) + (32 + uint (size_h (h n))), status (h b))
    \<and> n \<noteq> b \<and> (\<forall>nn. next_h (h n) = Some nn \<longrightarrow> nn \<noteq> b)"
proof -
  let ?h = "absorb_heap h b n"
  from sg obtain p' a' where 1: "seg h p pv a xs p' a'"
    and 2: "seg h p' (last_ptr pv xs) a' (b # n # ys) None e"
    unfolding seg_append by blast
  from 2 have p': "p' = Some b" and a': "a' = b" and pr: "prev (h b) = last_ptr pv xs"
    and nb: "next_h (h b) = Some n" and en: "block_end h b = n" and prn: "prev (h n) = Some b"
    and 3: "seg h (next_h (h n)) (Some n) (block_end h n) ys None e" by auto
  from seg_bounds [OF 1] have 4: "\<forall>x\<in>set xs. block_end h x \<le> b" "a \<le> b" using a' by auto
  from seg_bounds [OF 3] have 5: "\<forall>y\<in>set ys. block_end h n \<le> y" "block_end h n \<le> e" by auto
  have b_lt: "b < n" using en block_end_ge [of b h] by linarith
  have n_lt: "n + 32 \<le> block_end h n" by (rule block_end_ge)
  have xs_lt: "\<forall>x\<in>set xs. x < b"
  proof
    fix x assume "x \<in> set xs"
    then have "block_end h x \<le> b" using 4 by blast
    then show "x < b" using block_end_ge [of x h] by linarith
  qed
  have ys_gt: "\<forall>y\<in>set ys. n < y"
  proof
    fix y assume "y \<in> set ys"
    then have "block_end h n \<le> y" using 5 by blast
    then show "n < y" using n_lt by linarith
  qed
  have nxt_ys: "next_h (h n) = (case ys of [] \<Rightarrow> None | y # _ \<Rightarrow> Some y)"
    using 3 by (cases ys) auto
  have nn_gt: "\<forall>nn. next_h (h n) = Some nn \<longrightarrow> n < nn"
    using nxt_ys ys_gt by (cases ys) auto
  have fr_xs: "\<forall>x\<in>set xs. ?h x = h x"
  proof
    fix x assume x: "x \<in> set xs"
    then have xb: "x < b" using xs_lt by blast
    have "next_h (h n) \<noteq> Some x"
    proof
      assume "next_h (h n) = Some x"
      then have "n < x" using nn_gt by blast
      then show False using xb b_lt by linarith
    qed
    then have "Some x \<noteq> next_h (h n)" by metis
    then show "?h x = h x" using xb by (simp add: absorb_heap_def)
  qed
  have A: "seg ?h p pv a xs (Some b) b"
    using 1 p' a' fr_xs seg_frame [of xs ?h h p pv a "Some b" b] by simp
  have hb: "?h b = (h b)\<lparr>size_h := size_h (h b) + (header_size + size_h (h n)), next_h := next_h (h n)\<rparr>"
    by (simp add: absorb_heap_def)
  have "uint (size_h (h b)) + 32 + uint (size_h (h n)) \<le> 10240"
    using 5(2) e en 4(2) a0 uint_ge_0 [of "size_h (h n)"] unfolding block_end_def
    by (simp add: header_size_def del: uint_ge_0 unsigned_greater_eq)
  then have sz: "uint (size_h (?h b)) = uint (size_h (h b)) + 32 + uint (size_h (h n))"
    using merge_size_uint by (simp add: hb)
  have end_b: "block_end ?h b = block_end h n"
    using sz en by (simp add: block_end_def header_size_def)
  have B: "seg ?h (next_h (h n)) (Some b) (block_end h n) ys None e"
  proof (cases ys)
    case Nil
    then show ?thesis using 3 by simp
  next
    case (Cons y ys')
    then have y: "next_h (h n) = Some y" using nxt_ys by simp
    have ygt: "n < y" using ys_gt Cons by simp
    have hy: "?h y = (h y)\<lparr>prev := Some b\<rparr>"
      using ygt b_lt y by (simp add: absorb_heap_def)
    have sy: "seg h (Some y) (Some n) (block_end h n) (y # ys') None e" using 3 Cons y by simp
    then have "\<forall>z\<in>set ys'. block_end h y \<le> z"
      using seg_bounds [of h "next_h (h y)" "Some y" "block_end h y" ys' None e] by auto
    then have "\<forall>z\<in>set ys'. y < z" using block_end_ge [of y h] by fastforce
    then have "\<forall>z\<in>set ys'. ?h z = h z"
      using ygt b_lt y by (auto simp: absorb_heap_def)
    then have "seg ?h (Some y) (Some b) (block_end h n) (y # ys') None e"
      using seg_Cons_frame [OF sy, of ?h "Some b"] hy by simp
    then show ?thesis using Cons y by simp
  qed
  have "seg ?h (Some b) (last_ptr pv xs) b (b # ys) None e"
    using B pr by (simp add: hb end_b)
  then have C: "seg ?h p pv a (xs @ b # ys) None e"
    using A unfolding seg_append by blast
  have D: "\<forall>x\<in>set xs. x \<noteq> b \<and> x \<noteq> n \<and> block_at ?h x = block_at h x"
    using fr_xs xs_lt b_lt by (auto simp: block_at_def)
  have E: "\<forall>y\<in>set ys. y \<noteq> b \<and> block_at ?h y = block_at h y"
  proof
    fix y assume "y \<in> set ys"
    then have "n < y" using ys_gt by blast
    then show "y \<noteq> b \<and> block_at ?h y = block_at h y"
      using b_lt by (simp add: block_at_def absorb_heap_def)
  qed
  have F: "block_at ?h b = (b, uint (size_h (h b)) + (32 + uint (size_h (h n))), status (h b))"
    using sz by (simp add: block_at_def hb)
  have G: "n \<noteq> b \<and> (\<forall>nn. next_h (h n) = Some nn \<longrightarrow> nn \<noteq> b)"
    using b_lt nn_gt by fastforce
  show ?thesis using C D E F G by blast
qed

lemma seg_distinct: "seg h p pv a bs q e \<Longrightarrow> distinct bs"
proof (induction bs arbitrary: p pv a)
  case Nil
  then show ?case by simp
next
  case (Cons b bs)
  from Cons.prems have s: "seg h (next_h (h b)) (Some b) (block_end h b) bs q e" by simp
  have "\<forall>x\<in>set bs. block_end h b \<le> x" using seg_bounds [OF s] by blast
  then have "b \<notin> set bs" using block_end_ge [of b h] by fastforce
  then show ?case using Cons.IH [OF s] by simp
qed

lemma mark_free_spec_append:
  "\<forall>x\<in>set X. fst x \<noteq> b \<Longrightarrow> mark_free_spec b (X @ (b, n, st) # Y) = X @ (b, n, FREE) # Y"
  by (induction X) auto

lemma forward_coalesce_spec_Cons:
  "fst x \<noteq> b \<Longrightarrow> ys \<noteq> [] \<Longrightarrow> forward_coalesce_spec b (x # ys) = x # forward_coalesce_spec b ys"
  by (cases x; cases ys) auto

lemma forward_coalesce_spec_append:
  "\<forall>x\<in>set X. fst x \<noteq> b \<Longrightarrow>
   forward_coalesce_spec b (X @ (b, n, st) # Y) =
     X @ (case Y of
            [] \<Rightarrow> [(b, n, st)]
          | (a', n', st') # Y' \<Rightarrow>
              if st' = FREE then (b, n + (32 + n'), st) # Y' else (b, n, st) # (a', n', st') # Y')"
proof (induction X)
  case Nil
  then show ?case by (cases Y) auto
next
  case (Cons x X)
  then show ?case by (simp add: forward_coalesce_spec_Cons)
qed

lemma backward_coalesce_spec_Cons:
  "fst y \<noteq> b \<Longrightarrow> backward_coalesce_spec b (x # y # zs) = x # backward_coalesce_spec b (y # zs)"
  by (cases x; cases y) auto

lemma backward_coalesce_spec_absent:
  "\<forall>y\<in>set Y. fst y \<noteq> b \<Longrightarrow> backward_coalesce_spec b (x # Y) = x # Y"
proof (induction Y arbitrary: x)
  case Nil
  then show ?case by simp
next
  case (Cons y Y)
  then show ?case by (simp add: backward_coalesce_spec_Cons)
qed

lemma backward_coalesce_spec_append:
  "\<forall>x\<in>set X. fst x \<noteq> b \<Longrightarrow> pa \<noteq> b \<Longrightarrow>
   backward_coalesce_spec b (X @ (pa, pn, pst) # (b, n, st) # Y) =
     X @ (if pst = FREE then [(pa, pn + (32 + n), pst)] else [(pa, pn, pst), (b, n, st)]) @ Y"
proof (induction X)
  case Nil
  then show ?case by simp
next
  case (Cons x X)
  then have "backward_coalesce_spec b (x # (X @ (pa, pn, pst) # (b, n, st) # Y))
     = x # backward_coalesce_spec b (X @ (pa, pn, pst) # (b, n, st) # Y)"
    by (cases X) (simp_all add: backward_coalesce_spec_Cons)
  then show ?case using Cons by simp
qed

lemma free_mark_seg:
  assumes sg: "seg (heap s) p None 0 (xs @ b # ys) None MEMORY_POOL_SIZE"
  shows "seg (heap (set_status b FREE s)) p None 0 (xs @ b # ys) None MEMORY_POOL_SIZE"
    and "map (block_at (heap (set_status b FREE s))) (xs @ b # ys)
         = mark_free_spec b (map (block_at (heap s)) (xs @ b # ys))"
proof -
  let ?h = "heap s"
  let ?h' = "heap (set_status b FREE s)"
  show "seg ?h' p None 0 (xs @ b # ys) None MEMORY_POOL_SIZE"
    using sg seg_fields [of "xs @ b # ys" ?h' ?h p None 0 None MEMORY_POOL_SIZE] by simp
  have d: "distinct (xs @ b # ys)" using seg_distinct [OF sg] .
  then have X: "\<forall>x\<in>set (map (block_at ?h) xs). fst x \<noteq> b" by (auto simp: block_at_def)
  have "map (block_at ?h') (xs @ b # ys)
      = map (block_at ?h) xs @ (b, uint (size_h (?h b)), FREE) # map (block_at ?h) ys"
    using d by (auto simp: block_at_def)
  also have "\<dots> = mark_free_spec b (map (block_at ?h) (xs @ b # ys))"
    using mark_free_spec_append [OF X] by (simp add: block_at_def)
  finally show "map (block_at ?h') (xs @ b # ys) = mark_free_spec b (map (block_at ?h) (xs @ b # ys))" .
qed

lemma free_fwd_fields [simp]:
  "first_block (free_fwd s b) = first_block s"
  "is_initialized (free_fwd s b) = is_initialized s"
  "stdout (free_fwd s b) = stdout s"
  by (simp_all add: free_fwd_def split: option.splits)

lemma free_bwd_fields [simp]:
  "first_block (free_bwd s b) = first_block s"
  "is_initialized (free_bwd s b) = is_initialized s"
  "stdout (free_bwd s b) = stdout s"
  by (simp_all add: free_bwd_def split: option.splits)

lemma free_fwd_seg:
  assumes sg: "seg (heap s) p None 0 (xs @ b # ys) None MEMORY_POOL_SIZE"
  shows "\<exists>ys'. seg (heap (free_fwd s b)) p None 0 (xs @ b # ys') None MEMORY_POOL_SIZE \<and>
           map (block_at (heap (free_fwd s b))) (xs @ b # ys')
           = forward_coalesce_spec b (map (block_at (heap s)) (xs @ b # ys))"
proof -
  let ?h = "heap s"
  have d: "distinct (xs @ b # ys)" using seg_distinct [OF sg] .
  then have X: "\<forall>x\<in>set (map (block_at ?h) xs). fst x \<noteq> b" by (auto simp: block_at_def)
  have old: "map (block_at ?h) (xs @ b # ys)
      = map (block_at ?h) xs @ (b, uint (size_h (?h b)), status (?h b)) # map (block_at ?h) ys"
    by (simp add: block_at_def)
  from sg obtain p' a' where "seg ?h p' (last_ptr None xs) a' (b # ys) None MEMORY_POOL_SIZE"
    unfolding seg_append by blast
  then have nx: "seg ?h (next_h (?h b)) (Some b) (block_end ?h b) ys None MEMORY_POOL_SIZE"
    by simp
  show ?thesis
  proof (cases ys)
    case Nil
    then have "next_h (?h b) = None" using nx by simp
    then have "free_fwd s b = s" by (simp add: free_fwd_def)
    moreover have "forward_coalesce_spec b (map (block_at ?h) (xs @ b # ys)) = map (block_at ?h) (xs @ b # ys)"
      unfolding old forward_coalesce_spec_append [OF X] using Nil by simp
    ultimately show ?thesis using sg by auto
  next
    case (Cons n ys')
    then have nb: "next_h (?h b) = Some n" using nx by simp
    show ?thesis
    proof (cases "status (?h n) = FREE")
      case True
      have sg': "seg ?h p None 0 (xs @ b # n # ys') None MEMORY_POOL_SIZE" using sg Cons by simp
      have "MEMORY_POOL_SIZE \<le> 10240" by (simp add: MEMORY_POOL_SIZE_def)
      from seg_absorb_heap [OF sg' _ this]
      have 1: "seg (absorb_heap ?h b n) p None 0 (xs @ b # ys') None MEMORY_POOL_SIZE"
        and 2: "\<forall>x\<in>set xs. block_at (absorb_heap ?h b n) x = block_at ?h x"
        and 3: "\<forall>y\<in>set ys'. block_at (absorb_heap ?h b n) y = block_at ?h y"
        and 4: "block_at (absorb_heap ?h b n) b
                = (b, uint (size_h (?h b)) + (32 + uint (size_h (?h n))), status (?h b))"
        and 5: "n \<noteq> b" "\<forall>nn. next_h (?h n) = Some nn \<longrightarrow> nn \<noteq> b"
        by simp_all
      have fs: "free_fwd s b = absorb s b n" using nb True by (simp add: free_fwd_def)
      have h': "heap (free_fwd s b) = absorb_heap ?h b n"
        unfolding fs using absorb_heap_eq [OF 5] .
      have "map (block_at (heap (free_fwd s b))) (xs @ b # ys')
          = map (block_at ?h) xs @ (b, uint (size_h (?h b)) + (32 + uint (size_h (?h n))), status (?h b))
              # map (block_at ?h) ys'"
        unfolding h' using 2 3 4 by simp
      also have "\<dots> = forward_coalesce_spec b (map (block_at ?h) (xs @ b # ys))"
        unfolding old forward_coalesce_spec_append [OF X] using Cons True by (simp add: block_at_def)
      finally show ?thesis using 1 h' by auto
    next
      case False
      then have "free_fwd s b = s" using nb by (simp add: free_fwd_def)
      moreover have "forward_coalesce_spec b (map (block_at ?h) (xs @ b # ys)) = map (block_at ?h) (xs @ b # ys)"
        unfolding old forward_coalesce_spec_append [OF X] using Cons False by (simp add: block_at_def)
      ultimately show ?thesis using sg by auto
    qed
  qed
qed

lemma free_bwd_seg:
  assumes sg: "seg (heap s) p None 0 (xs @ b # ys) None MEMORY_POOL_SIZE"
  shows "\<exists>bs'. seg (heap (free_bwd s b)) p None 0 bs' None MEMORY_POOL_SIZE \<and>
           map (block_at (heap (free_bwd s b))) bs'
           = backward_coalesce_spec b (map (block_at (heap s)) (xs @ b # ys))"
proof -
  let ?h = "heap s"
  have d: "distinct (xs @ b # ys)" using seg_distinct [OF sg] .
  from sg obtain p' a' where "seg ?h p' (last_ptr None xs) a' (b # ys) None MEMORY_POOL_SIZE"
    unfolding seg_append by blast
  then have pr: "prev (?h b) = last_ptr None xs" by simp
  have Y: "\<forall>y\<in>set (map (block_at ?h) ys). fst y \<noteq> b" using d by (auto simp: block_at_def)
  show ?thesis
  proof (cases xs rule: rev_cases)
    case Nil
    then have "prev (?h b) = None" using pr by simp
    then have "free_bwd s b = s" by (simp add: free_bwd_def)
    moreover have "backward_coalesce_spec b (map (block_at ?h) (xs @ b # ys)) = map (block_at ?h) (xs @ b # ys)"
      using Nil backward_coalesce_spec_absent [OF Y] by simp
    ultimately show ?thesis using sg by auto
  next
    case (snoc xs' pb)
    then have pv: "prev (?h b) = Some pb" using pr by simp
    have X: "\<forall>x\<in>set (map (block_at ?h) xs'). fst x \<noteq> b" and pbb: "pb \<noteq> b"
      using d snoc by (auto simp: block_at_def)
    have old: "map (block_at ?h) (xs @ b # ys)
      = map (block_at ?h) xs' @ (pb, uint (size_h (?h pb)), status (?h pb))
          # (b, uint (size_h (?h b)), status (?h b)) # map (block_at ?h) ys"
      by (simp add: snoc block_at_def)
    show ?thesis
    proof (cases "status (?h pb) = FREE")
      case True
      have sg': "seg ?h p None 0 (xs' @ pb # b # ys) None MEMORY_POOL_SIZE" using sg snoc by simp
      have "MEMORY_POOL_SIZE \<le> 10240" by (simp add: MEMORY_POOL_SIZE_def)
      from seg_absorb_heap [OF sg' _ this]
      have 1: "seg (absorb_heap ?h pb b) p None 0 (xs' @ pb # ys) None MEMORY_POOL_SIZE"
        and 2: "\<forall>x\<in>set xs'. block_at (absorb_heap ?h pb b) x = block_at ?h x"
        and 3: "\<forall>y\<in>set ys. block_at (absorb_heap ?h pb b) y = block_at ?h y"
        and 4: "block_at (absorb_heap ?h pb b) pb
                = (pb, uint (size_h (?h pb)) + (32 + uint (size_h (?h b))), status (?h pb))"
        and 5: "b \<noteq> pb" "\<forall>nn. next_h (?h b) = Some nn \<longrightarrow> nn \<noteq> pb"
        by simp_all
      have fs: "free_bwd s b = absorb s pb b" using pv True by (simp add: free_bwd_def)
      have h': "heap (free_bwd s b) = absorb_heap ?h pb b"
        unfolding fs using absorb_heap_eq [OF 5] .
      have "map (block_at (heap (free_bwd s b))) (xs' @ pb # ys)
          = map (block_at ?h) xs' @ (pb, uint (size_h (?h pb)) + (32 + uint (size_h (?h b))), status (?h pb))
              # map (block_at ?h) ys"
        unfolding h' using 2 3 4 by simp
      also have "\<dots> = backward_coalesce_spec b (map (block_at ?h) (xs @ b # ys))"
        unfolding old backward_coalesce_spec_append [OF X pbb] using True by simp
      finally show ?thesis using 1 h' by auto
    next
      case False
      then have "free_bwd s b = s" using pv by (simp add: free_bwd_def)
      moreover have "backward_coalesce_spec b (map (block_at ?h) (xs @ b # ys)) = map (block_at ?h) (xs @ b # ys)"
        unfolding old backward_coalesce_spec_append [OF X pbb] using False by simp
      ultimately show ?thesis using sg by auto
    qed
  qed
qed

lemma free_seg:
  assumes sg: "seg (heap s) p None 0 bs None MEMORY_POOL_SIZE" and b: "b \<in> set bs"
  shows "\<exists>bs'. seg (heap (free_bwd (free_fwd (set_status b FREE s) b) b)) p None 0 bs' None MEMORY_POOL_SIZE \<and>
           map (block_at (heap (free_bwd (free_fwd (set_status b FREE s) b) b))) bs'
           = release_spec b (map (block_at (heap s)) bs)"
proof -
  from b obtain xs ys where bs: "bs = xs @ b # ys" by (auto simp: in_set_conv_decomp)
  let ?s1 = "set_status b FREE s"
  let ?s2 = "free_fwd ?s1 b"
  let ?s3 = "free_bwd ?s2 b"
  have 1: "seg (heap ?s1) p None 0 (xs @ b # ys) None MEMORY_POOL_SIZE"
    and m1: "map (block_at (heap ?s1)) (xs @ b # ys) = mark_free_spec b (map (block_at (heap s)) (xs @ b # ys))"
    using free_mark_seg [OF sg [unfolded bs]] by blast+
  from free_fwd_seg [OF 1] obtain ys' where
    2: "seg (heap ?s2) p None 0 (xs @ b # ys') None MEMORY_POOL_SIZE"
    and m2: "map (block_at (heap ?s2)) (xs @ b # ys')
             = forward_coalesce_spec b (map (block_at (heap ?s1)) (xs @ b # ys))" by blast
  from free_bwd_seg [OF 2] obtain bs' where
    3: "seg (heap ?s3) p None 0 bs' None MEMORY_POOL_SIZE"
    and m3: "map (block_at (heap ?s3)) bs'
             = backward_coalesce_spec b (map (block_at (heap ?s2)) (xs @ b # ys'))" by blast
  have "map (block_at (heap ?s3)) bs' = release_spec b (map (block_at (heap s)) bs)"
    unfolding release_spec_def m3 m2 m1 bs ..
  then show ?thesis using 3 by blast
qed

lemma valid_block_range:
  assumes "chain_inv s" and "b \<in> set (chain s)"
  shows "0 \<le> b \<and> b + 32 \<le> MEMORY_POOL_SIZE"
proof -
  from seg_bounds [OF chain_invD [OF assms(1)]] assms(2)
  have "0 \<le> b" "block_end (heap s) b \<le> MEMORY_POOL_SIZE" by auto
  then show ?thesis using block_end_ge [of b "heap s"] by linarith
qed

lemma My_Free_chain:
  assumes inv: "chain_inv s" and b: "b \<in> set (chain s)"
  shows "chain_inv (My_Free s (Some (b + 32)))"
    and "blocks (My_Free s (Some (b + 32))) = release_spec b (blocks s)"
    and "first_block (My_Free s (Some (b + 32))) = first_block s"
    and "is_initialized (My_Free s (Some (b + 32))) = is_initialized s"
    and "stdout (My_Free s (Some (b + 32))) = stdout s"
proof -
  let ?s' = "free_bwd (free_fwd (set_status b FREE s) b) b"
  have r: "0 \<le> b \<and> b + 32 \<le> MEMORY_POOL_SIZE" using valid_block_range [OF assms] .
  then have eq: "My_Free s (Some (b + 32)) = ?s'" by (simp add: My_Free_steps)
  from free_seg [OF chain_invD [OF inv] b] obtain bs' where
    1: "seg (heap ?s') (first_block s) None 0 bs' None MEMORY_POOL_SIZE"
    and 2: "map (block_at (heap ?s')) bs' = release_spec b (map (block_at (heap s)) (chain s))"
    by blast
  have fb: "first_block ?s' = first_block s" by simp
  have sg3: "seg (heap ?s') (first_block ?s') None 0 bs' None MEMORY_POOL_SIZE" using 1 fb by simp
  show "chain_inv (My_Free s (Some (b + 32)))" unfolding eq using chain_invI [OF sg3] .
  show "blocks (My_Free s (Some (b + 32))) = release_spec b (blocks s)"
    unfolding eq blocks_def chain_eq [OF sg3] using 2 .
  show "first_block (My_Free s (Some (b + 32))) = first_block s"
    "is_initialized (My_Free s (Some (b + 32))) = is_initialized s"
    "stdout (My_Free s (Some (b + 32))) = stdout s"
    unfolding eq by simp_all
qed

lemma not3_mask: "(NOT 3 :: size_t) = NOT (mask 2)"
  by (simp add: mask_eq_exp_minus_1)

lemma round_uint: "uint ((n + 3) AND NOT 3 :: size_t) = ((uint n + 3) mod 2 ^ 64) div 4 * 4"
proof -
  have ss: "\<And>k. \<not> k < 2 \<Longrightarrow> Suc (Suc (k - 2)) = k" by simp
  have "(n + 3) AND NOT (mask 2) = push_bit 2 (drop_bit 2 (n + 3))"
    by (rule bit_word_eqI) (auto simp: bit_simps ss not_less [symmetric])
  then have "(n + 3) AND NOT 3 = push_bit 2 (drop_bit 2 (n + 3))"
    unfolding not3_mask .
  also have "uint \<dots> = take_bit 64 (push_bit 2 (drop_bit 2 (uint (n + 3))))"
  proof -
    have "uint (n + 3) < 2 ^ 64" using uint_lt2p [of "n + 3"] by simp
    then have "take_bit 64 (uint (n + 3)) = uint (n + 3)"
      by (simp add: take_bit_eq_mod)
    then show ?thesis by (simp add: unsigned_push_bit_eq unsigned_drop_bit_eq)
  qed
  also have "\<dots> = (uint (n + 3) div 4 * 4) mod 2 ^ 64"
    by (simp add: take_bit_eq_mod push_bit_eq_mult drop_bit_eq_div)
  also have "\<dots> = uint (n + 3) div 4 * 4"
  proof -
    have "uint (n + 3) div 4 * 4 \<le> uint (n + 3)" by simp
    moreover have "uint (n + 3) < 2 ^ 64" using uint_lt2p [of "n + 3"] by simp
    moreover have "0 \<le> uint (n + 3) div 4 * 4"
      using uint_ge_0 [of "n + 3"] by (simp add: pos_imp_zdiv_nonneg_iff del: uint_ge_0 unsigned_greater_eq)
    ultimately show ?thesis by (simp del: uint_ge_0 unsigned_greater_eq)
  qed
  also have "uint (n + 3) = (uint n + 3) mod 2 ^ 64"
    by (simp add: uint_word_ariths take_bit_eq_mod)
  finally show ?thesis .
qed

lemma round_uint_small:
  "uint n + 3 < 2 ^ 64 \<Longrightarrow> uint ((n + 3) AND NOT 3 :: size_t) = (uint n + 3) div 4 * 4"
  unfolding round_uint by simp

lemma round_wraps:
  assumes "2 ^ 64 \<le> uint (n :: size_t) + 3"
  shows "(n + 3) AND NOT 3 = 0"
proof -
  have b: "uint n < 2 ^ 64" using uint_lt2p [of n] by simp
  have "(uint n + 3) mod 2 ^ 64 = uint n + 3 - 2 ^ 64"
    using assms b by (simp add: mod_pos_geq)
  moreover have "(uint n + 3 - 2 ^ 64) div 4 = 0" using assms b by simp
  ultimately have "uint ((n + 3) AND NOT 3 :: size_t) = 0" unfolding round_uint by simp
  then show ?thesis by (simp only: uint_0_iff)
qed

lemma Memory_Init_done: "is_initialized s \<noteq> 0 \<Longrightarrow> Memory_Init s = s"
  by (simp add: Memory_Init_def)

lemma header_all_fields:
  "(r\<lparr>size_h := a, status := b, next_h := c, prev := d\<rparr> :: MemoryBlockHeader)
   = \<lparr>size_h = a, status = b, next_h = c, prev = d\<rparr>"
  by (cases r) simp

lemma Memory_Init_first:
  "is_initialized s = 0 \<Longrightarrow>
   Memory_Init s = s\<lparr>heap := (heap s)(0 := init_header), first_block := Some 0, is_initialized := 1\<rparr>"
  by (simp add: Memory_Init_def Let_def set_size_def set_status_def set_next_def set_prev_def
      init_header_def MEMORY_POOL_SIZE_def header_size_def header_all_fields)

lemma Memory_Init_seg:
  assumes "is_initialized s = 0"
  shows "seg (heap (Memory_Init s)) (first_block (Memory_Init s)) None 0 [0] None MEMORY_POOL_SIZE"
  by (simp add: Memory_Init_first [OF assms] init_header_def block_end_def MEMORY_POOL_SIZE_def)

lemma Memory_Init_chain:
  assumes "is_initialized s = 0"
  shows "chain_inv (Memory_Init s)" and "blocks (Memory_Init s) = [(0, 10208, FREE)]"
proof -
  show "chain_inv (Memory_Init s)" using chain_invI [OF Memory_Init_seg [OF assms]] .
  show "blocks (Memory_Init s) = [(0, 10208, FREE)]"
    unfolding blocks_def chain_eq [OF Memory_Init_seg [OF assms]]
    by (simp add: Memory_Init_first [OF assms] block_at_def init_header_def)
qed

lemma Memory_Init_idem: "Memory_Init (Memory_Init s) = Memory_Init s"
  by (cases "is_initialized s = 0") (simp_all add: Memory_Init_done Memory_Init_first)

lemma My_Malloc_initialized:
  assumes inv: "chain_inv s" and ini: "is_initialized s \<noteq> 0" and r: "r = (n + 3) AND NOT 3"
  shows "My_Malloc s n =
     Some (if r = 0 then (None, s)
           else case find (\<lambda>b. status (heap s b) = FREE \<and> r \<le> size_h (heap s b)) (chain s) of
                  None \<Rightarrow> (None, s)
                | Some c \<Rightarrow> take_block s r c)"
  unfolding My_Malloc_def Let_def r [symmetric]
  using malloc_loop_seg [OF chain_invD [OF inv], of r] ini by simp

lemma My_Malloc_uninitialized:
  "is_initialized s = 0 \<Longrightarrow> My_Malloc s n = My_Malloc (Memory_Init s) n"
  by (simp add: My_Malloc_def Let_def Memory_Init_first)

lemma take_block_chain:
  assumes inv: "chain_inv s" and c: "c \<in> set (chain s)" and le: "sz \<le> size_h (heap s c)"
    and s': "s' = snd (take_block s sz c)"
  shows "chain_inv s'" and "blocks s' = allocate_spec (uint sz) c (blocks s)"
    and "first_block s' = first_block s" and "is_initialized s' = is_initialized s"
    and "stdout s' = stdout s"
proof -
  note tb = take_block_seg [OF chain_invD [OF inv] c le s']
  from tb(1) obtain bs' where 1: "seg (heap s') (first_block s) None 0 bs' None MEMORY_POOL_SIZE"
    and 2: "map (block_at (heap s')) bs' = allocate_spec (uint sz) c (map (block_at (heap s)) (chain s))"
    by blast
  show fb: "first_block s' = first_block s" and "is_initialized s' = is_initialized s"
    and "stdout s' = stdout s" using tb(2-4) by simp_all
  have sg: "seg (heap s') (first_block s') None 0 bs' None MEMORY_POOL_SIZE" using 1 fb by simp
  show "chain_inv s'" using chain_invI [OF sg] .
  show "blocks s' = allocate_spec (uint sz) c (blocks s)"
    unfolding blocks_def chain_eq [OF sg] using 2 .
qed

lemma block_status_simp [simp]: "block_status (a, n, st) = st"
  by (simp add: block_status_def)

lemma no_adj_Cons:
  "no_adjacent_free (x # Y) \<longleftrightarrow>
     no_adjacent_free Y \<and> (Y = [] \<or> \<not> (block_status x = FREE \<and> block_status (hd Y) = FREE))"
  by (cases x; cases Y) auto

lemma no_adj_append:
  "no_adjacent_free (X @ Y) \<longleftrightarrow>
     no_adjacent_free X \<and> no_adjacent_free Y \<and>
     (X = [] \<or> Y = [] \<or> \<not> (block_status (last X) = FREE \<and> block_status (hd Y) = FREE))"
proof (induction X)
  case Nil
  then show ?case by simp
next
  case (Cons x X)
  show ?case
    unfolding append_Cons no_adj_Cons [of x "X @ Y"] no_adj_Cons [of x X] Cons.IH
    by (cases X; cases Y) auto
qed

lemma allocated_addrs_simps [simp]:
  "allocated_addrs [] = {}"
  "allocated_addrs ((a, n, st) # bs) = (if st = ALLOCATED then insert a (allocated_addrs bs) else allocated_addrs bs)"
  "allocated_addrs (X @ Y) = allocated_addrs X \<union> allocated_addrs Y"
  by (simp_all add: allocated_addrs_def)

lemma allocated_addrs_subset: "allocated_addrs bs \<subseteq> fst ` set bs"
  by (auto simp: allocated_addrs_def)

lemma not_FREE [simp]: "(st \<noteq> FREE) = (st = ALLOCATED)"
  by (cases st) auto

lemma only_free_single:
  "no_adjacent_free bs \<Longrightarrow> allocated_addrs bs = {} \<Longrightarrow> length bs \<le> 1"
proof (induction bs rule: no_adjacent_free.induct)
  case (1 a n st a' n' st' bs)
  then show ?case by (cases st; cases st') auto
qed auto

lemma allocate_spec_props:
  assumes d: "distinct (map fst bs)" and c: "(c, m, FREE) \<in> set bs"
  shows "allocated_addrs (allocate_spec r c bs) = insert c (allocated_addrs bs)"
    and "c \<notin> allocated_addrs bs"
    and "no_adjacent_free bs \<Longrightarrow> no_adjacent_free (allocate_spec r c bs)"
proof -
  from c obtain X Y where bs: "bs = X @ (c, m, FREE) # Y" by (auto simp: in_set_conv_decomp)
  have X: "\<forall>x\<in>set X. fst x \<noteq> c" and Y: "\<forall>y\<in>set Y. fst y \<noteq> c" using d unfolding bs by auto
  have cX: "c \<notin> allocated_addrs X" "c \<notin> allocated_addrs Y"
    using X Y allocated_addrs_subset [of X] allocated_addrs_subset [of Y] by auto
  note eq = allocate_spec_append [OF X, of r m FREE Y]
  show "allocated_addrs (allocate_spec r c bs) = insert c (allocated_addrs bs)"
    unfolding bs eq by auto
  show "c \<notin> allocated_addrs bs" unfolding bs using cX by simp
  show "no_adjacent_free (allocate_spec r c bs)" if "no_adjacent_free bs"
    using that unfolding bs eq by (auto simp: no_adj_append no_adj_Cons)
qed

lemma release_spec_cases:
  assumes d: "distinct (map fst (X @ (b, n, st) # Y))"
  obtains m Y2 where
    "(Y2 = Y \<and> m = n \<and> (Y = [] \<or> block_status (hd Y) = ALLOCATED))
      \<or> (\<exists>na nn. Y = (na, nn, FREE) # Y2 \<and> m = n + (32 + nn))"
    and "(release_spec b (X @ (b, n, st) # Y) = X @ (b, m, FREE) # Y2
            \<and> (X = [] \<or> block_status (last X) = ALLOCATED))
      \<or> (\<exists>X' pa pn. X = X' @ [(pa, pn, FREE)]
            \<and> release_spec b (X @ (b, n, st) # Y) = X' @ (pa, pn + (32 + m), FREE) # Y2)"
proof -
  have X: "\<forall>x\<in>set X. fst x \<noteq> b" and Y: "\<forall>y\<in>set Y. fst y \<noteq> b" using d by auto
  have mk: "mark_free_spec b (X @ (b, n, st) # Y) = X @ (b, n, FREE) # Y"
    using mark_free_spec_append [OF X] .
  define m where "m = (case Y of [] \<Rightarrow> n | (na, nn, nst) # Y' \<Rightarrow> if nst = FREE then n + (32 + nn) else n)"
  define Y2 where "Y2 = (case Y of [] \<Rightarrow> [] | (na, nn, nst) # Y' \<Rightarrow> if nst = FREE then Y' else Y)"
  have fw: "forward_coalesce_spec b (X @ (b, n, FREE) # Y) = X @ (b, m, FREE) # Y2"
    unfolding forward_coalesce_spec_append [OF X] m_def Y2_def
    by (auto split: list.splits)
  have A: "(Y2 = Y \<and> m = n \<and> (Y = [] \<or> block_status (hd Y) = ALLOCATED))
      \<or> (\<exists>na nn. Y = (na, nn, FREE) # Y2 \<and> m = n + (32 + nn))"
    unfolding m_def Y2_def by (auto split: list.splits)
  have "set Y2 \<subseteq> set Y" unfolding Y2_def by (auto split: list.splits)
  then have Y2: "\<forall>y\<in>set Y2. fst y \<noteq> b" using Y by blast
  have rs: "release_spec b (X @ (b, n, st) # Y) = backward_coalesce_spec b (X @ (b, m, FREE) # Y2)"
    unfolding release_spec_def mk fw ..
  have B: "(release_spec b (X @ (b, n, st) # Y) = X @ (b, m, FREE) # Y2
            \<and> (X = [] \<or> block_status (last X) = ALLOCATED))
      \<or> (\<exists>X' pa pn. X = X' @ [(pa, pn, FREE)]
            \<and> release_spec b (X @ (b, n, st) # Y) = X' @ (pa, pn + (32 + m), FREE) # Y2)"
  proof (cases X rule: rev_cases)
    case Nil
    then show ?thesis unfolding rs using backward_coalesce_spec_absent [OF Y2] by simp
  next
    case (snoc X' p)
    obtain pa pn pst where p: "p = (pa, pn, pst)" by (cases p) auto
    have X': "\<forall>x\<in>set X'. fst x \<noteq> b" and pa: "pa \<noteq> b" using X snoc p by auto
    have "backward_coalesce_spec b (X @ (b, m, FREE) # Y2)
        = X' @ (if pst = FREE then [(pa, pn + (32 + m), pst)] else [(pa, pn, pst), (b, m, FREE)]) @ Y2"
      using backward_coalesce_spec_append [OF X' pa, of pn pst m FREE Y2] snoc p by simp
    then show ?thesis unfolding rs using snoc p by (cases pst) auto
  qed
  show thesis using that [OF A B] .
qed

lemma release_spec_props:
  assumes d: "distinct (map fst bs)" and b: "b \<in> fst ` set bs"
  shows "allocated_addrs (release_spec b bs) = allocated_addrs bs - {b}"
    and "no_adjacent_free bs \<Longrightarrow> no_adjacent_free (release_spec b bs)"
    and "distinct (map fst (release_spec b bs))"
proof -
  from b obtain n st where "(b, n, st) \<in> set bs" by auto
  then obtain X Y where bs: "bs = X @ (b, n, st) # Y" by (auto simp: in_set_conv_decomp)
  have X: "\<forall>x\<in>set X. fst x \<noteq> b" and Y: "\<forall>y\<in>set Y. fst y \<noteq> b" using d unfolding bs by auto
  have bX: "b \<notin> allocated_addrs X" "b \<notin> allocated_addrs Y"
    using X Y allocated_addrs_subset [of X] allocated_addrs_subset [of Y] by auto
  from d [unfolded bs] obtain m Y2 where
    A: "(Y2 = Y \<and> m = n \<and> (Y = [] \<or> block_status (hd Y) = ALLOCATED))
      \<or> (\<exists>na nn. Y = (na, nn, FREE) # Y2 \<and> m = n + (32 + nn))"
    and B: "(release_spec b (X @ (b, n, st) # Y) = X @ (b, m, FREE) # Y2
            \<and> (X = [] \<or> block_status (last X) = ALLOCATED))
      \<or> (\<exists>X' pa pn. X = X' @ [(pa, pn, FREE)]
            \<and> release_spec b (X @ (b, n, st) # Y) = X' @ (pa, pn + (32 + m), FREE) # Y2)"
    by (rule release_spec_cases)
  show "allocated_addrs (release_spec b bs) = allocated_addrs bs - {b}"
    using A B bX unfolding bs by (cases st) auto
  show "no_adjacent_free (release_spec b bs)" if "no_adjacent_free bs"
    using A B that unfolding bs by (auto simp: no_adj_append no_adj_Cons)
  show "distinct (map fst (release_spec b bs))"
    using A B d unfolding bs by auto
qed

lemma blocks_fst [simp]: "map fst (blocks s) = chain s"
  by (simp add: blocks_def block_at_def comp_def)

lemma chain_distinct: "chain_inv s \<Longrightarrow> distinct (chain s)"
  using seg_distinct [OF chain_invD] .

lemma blocks_member:
  "(a, n, st) \<in> set (blocks s) \<longleftrightarrow> a \<in> set (chain s) \<and> n = uint (size_h (heap s a)) \<and> st = status (heap s a)"
  by (auto simp: blocks_def block_at_def)

lemma allocated_addrs_blocks:
  "allocated_addrs (blocks s) = {a \<in> set (chain s). status (heap s a) = ALLOCATED}"
  by (force simp: allocated_addrs_def blocks_def block_at_def block_status_def)

lemma My_Malloc_success:
  assumes inv: "chain_inv s" and ini: "is_initialized s \<noteq> 0"
    and m: "My_Malloc s n = Some (Some h, s')" and r: "r = (n + 3) AND NOT 3"
  shows "find (\<lambda>b. status (heap s b) = FREE \<and> r \<le> size_h (heap s b)) (chain s) = Some (h - 32)"
    and "r \<noteq> 0" and "s' = snd (take_block s r (h - 32))"
    and "h - 32 \<in> set (chain s)" and "status (heap s (h - 32)) = FREE"
    and "r \<le> size_h (heap s (h - 32))"
proof -
  note eq = My_Malloc_initialized [OF inv ini r]
  from m eq show r0: "r \<noteq> 0" by (auto split: if_splits)
  from m eq r0 obtain c where
    f: "find (\<lambda>b. status (heap s b) = FREE \<and> r \<le> size_h (heap s b)) (chain s) = Some c"
    and t: "take_block s r c = (Some h, s')"
    by (auto split: option.splits)
  from t have "fst (take_block s r c) = Some h" by simp
  then have c: "c = h - 32" by (simp add: take_block_fst)
  show "find (\<lambda>b. status (heap s b) = FREE \<and> r \<le> size_h (heap s b)) (chain s) = Some (h - 32)"
    using f c by simp
  show "s' = snd (take_block s r (h - 32))" using t c by simp
  from find_in_set [OF f] c
  show "h - 32 \<in> set (chain s)" "status (heap s (h - 32)) = FREE" "r \<le> size_h (heap s (h - 32))"
    by simp_all
qed

lemma My_Malloc_success_inv:
  assumes inv: "chain_inv s" and ini: "is_initialized s \<noteq> 0"
    and m: "My_Malloc s n = Some (Some h, s')"
  shows "chain_inv s'" and "is_initialized s' \<noteq> 0"
    and "allocated_addrs (blocks s') = insert (h - 32) (allocated_addrs (blocks s))"
    and "h - 32 \<notin> allocated_addrs (blocks s)"
    and "no_adjacent_free (blocks s) \<Longrightarrow> no_adjacent_free (blocks s')"
proof -
  define r where "r = (n + 3) AND NOT 3"
  note su = My_Malloc_success [OF inv ini m r_def]
  note tb = take_block_chain [OF inv su(4) su(6) su(3)]
  show "chain_inv s'" using tb(1) .
  show "is_initialized s' \<noteq> 0" using tb(4) ini by simp
  have d: "distinct (map fst (blocks s))" using chain_distinct [OF inv] by simp
  have c: "(h - 32, uint (size_h (heap s (h - 32))), FREE) \<in> set (blocks s)"
    using su(4,5) by (simp add: blocks_member)
  show "allocated_addrs (blocks s') = insert (h - 32) (allocated_addrs (blocks s))"
    unfolding tb(2) using allocate_spec_props(1) [OF d c] .
  show "h - 32 \<notin> allocated_addrs (blocks s)" using allocate_spec_props(2) [OF d c] .
  show "no_adjacent_free (blocks s')" if "no_adjacent_free (blocks s)"
    unfolding tb(2) using allocate_spec_props(3) [OF d c that] .
qed

lemma My_Malloc_failure:
  assumes inv: "chain_inv s" and ini: "is_initialized s \<noteq> 0"
    and m: "My_Malloc s n = Some (None, s')"
  shows "s' = s"
proof -
  define r where "r = (n + 3) AND NOT 3"
  note eq = My_Malloc_initialized [OF inv ini r_def]
  have "fst (take_block s r c) \<noteq> None" for r c by (simp add: take_block_fst)
  then have "take_block s r c \<noteq> (None, s')" for r c by (metis fst_conv)
  then show ?thesis using m eq by (auto split: if_splits option.splits)
qed

lemma My_Malloc_returns:
  assumes inv: "chain_inv s"
  shows "\<exists>p s'. My_Malloc s n = Some (p, s') \<and> chain_inv s' \<and> is_initialized s' \<noteq> 0"
proof -
  have *: "\<exists>p s'. My_Malloc t n = Some (p, s') \<and> chain_inv s' \<and> is_initialized s' \<noteq> 0"
    if inv: "chain_inv t" and ini: "is_initialized t \<noteq> 0" for t
  proof -
    define r where "r = (n + 3) AND NOT 3"
    have "My_Malloc t n \<noteq> None"
      using My_Malloc_initialized [OF inv ini r_def] by simp
    then obtain p s' where m: "My_Malloc t n = Some (p, s')" by auto
    show ?thesis
    proof (cases p)
      case None
      then have "s' = t" using My_Malloc_failure [OF inv ini] m by simp
      then show ?thesis using m inv ini by simp
    next
      case (Some h)
      then show ?thesis using My_Malloc_success_inv(1,2) [OF inv ini] m by blast
    qed
  qed
  show ?thesis
  proof (cases "is_initialized s = 0")
    case True
    have "is_initialized (Memory_Init s) \<noteq> 0" by (simp add: Memory_Init_first [OF True])
    from * [OF Memory_Init_chain(1) [OF True] this]
    show ?thesis by (simp add: My_Malloc_uninitialized [OF True])
  next
    case False
    then show ?thesis using * [OF inv] by simp
  qed
qed

lemma My_Free_allocated:
  assumes inv: "chain_inv s" and b: "b \<in> set (chain s)"
  shows "allocated_addrs (blocks (My_Free s (Some (b + 32)))) = allocated_addrs (blocks s) - {b}"
    and "no_adjacent_free (blocks s) \<Longrightarrow> no_adjacent_free (blocks (My_Free s (Some (b + 32))))"
proof -
  note fr = My_Free_chain [OF inv b]
  have d: "distinct (map fst (blocks s))" using chain_distinct [OF inv] by simp
  have bb: "b \<in> fst ` set (blocks s)" using b blocks_fst [of s] by (metis set_map)
  note rp = release_spec_props [OF d bb]
  show "allocated_addrs (blocks (My_Free s (Some (b + 32)))) = allocated_addrs (blocks s) - {b}"
    unfolding fr(2) using rp(1) .
  show "no_adjacent_free (blocks (My_Free s (Some (b + 32))))" if "no_adjacent_free (blocks s)"
    unfolding fr(2) using rp(2) [OF that] .
qed

lemma chain_nonempty: "chain_inv s \<Longrightarrow> chain s \<noteq> []"
  using chain_invD [of s] by (auto simp: MEMORY_POOL_SIZE_def)

lemma single_block:
  assumes inv: "chain_inv s" and l: "length (chain s) \<le> 1"
  shows "chain s = [0]" and "first_block s = Some 0" and "size_h (heap s 0) = 10208"
    and "next_h (heap s 0) = None" and "prev (heap s 0) = None"
proof -
  from chain_nonempty [OF inv] l obtain a where a: "chain s = [a]"
    by (cases "chain s") auto
  from chain_invD [OF inv] have f: "first_block s = Some a" and a0: "a = 0"
    and p: "prev (heap s a) = None" and n: "next_h (heap s a) = None"
    and e: "block_end (heap s) a = MEMORY_POOL_SIZE"
    unfolding a by auto
  show "chain s = [0]" using a a0 by simp
  show "first_block s = Some 0" using f a0 by simp
  show "next_h (heap s 0) = None" "prev (heap s 0) = None" using p n a0 by simp_all
  have "uint (size_h (heap s 0)) = 10208"
    using e a0 by (simp add: block_end_def MEMORY_POOL_SIZE_def)
  then have "uint (size_h (heap s 0)) = uint (10208 :: size_t)" by simp
  then show "size_h (heap s 0) = 10208" by (simp only: word_uint_eq_iff)
qed

lemma seg_sorted: "seg h p pv a bs q e \<Longrightarrow> sorted_wrt (<) bs"
proof (induction bs arbitrary: p pv a)
  case Nil
  then show ?case by simp
next
  case (Cons b bs)
  from Cons.prems have s: "seg h (next_h (h b)) (Some b) (block_end h b) bs q e" by simp
  have "\<forall>x\<in>set bs. block_end h b \<le> x" using seg_bounds [OF s] by blast
  then have "\<forall>x\<in>set bs. b < x" using block_end_ge [of b h] by fastforce
  then show ?case using Cons.IH [OF s] by simp
qed

lemma seg_bytes:
  "seg h p pv a bs q e \<Longrightarrow> sum_list (map (\<lambda>b. 32 + uint (size_h (h b))) bs) = e - a"
proof (induction bs arbitrary: p pv a)
  case Nil
  then show ?case by simp
next
  case (Cons b bs)
  from Cons.prems have s: "seg h (next_h (h b)) (Some b) (block_end h b) bs q e"
    and a: "a = b" by simp_all
  show ?case using Cons.IH [OF s] a by (simp add: block_end_def)
qed

lemma chain_inv_facts:
  assumes "chain_inv s"
  shows "first_block s = Some 0" and "hd (chain s) = 0" and "sorted_wrt (<) (chain s)"
    and "chain_bytes s = MEMORY_POOL_SIZE"
proof -
  note sg = chain_invD [OF assms]
  from chain_nonempty [OF assms] obtain a bs where c: "chain s = a # bs" by (cases "chain s") auto
  from sg show "first_block s = Some 0" "hd (chain s) = 0" unfolding c by simp_all
  show "sorted_wrt (<) (chain s)" using seg_sorted [OF sg] .
  have "chain_bytes s = sum_list (map (\<lambda>b. 32 + uint (size_h (heap s b))) (chain s))"
    by (simp add: chain_bytes_def blocks_def block_at_def comp_def)
  then show "chain_bytes s = MEMORY_POOL_SIZE" using seg_bytes [OF sg] by simp
qed

lemma stdout_update_chain [simp]:
  "chain (s\<lparr>stdout := x\<rparr>) = chain s"
  "blocks (s\<lparr>stdout := x\<rparr>) = blocks s"
  "chain_inv (s\<lparr>stdout := x\<rparr>) = chain_inv s"
  by (simp_all add: chain_def blocks_def chain_inv_def)

lemma My_Free_release_ok:
  assumes inv: "chain_inv s" and ok: "release_ok s p"
  shows "chain_inv (My_Free s p)"
    and "no_adjacent_free (blocks s) \<Longrightarrow> no_adjacent_free (blocks (My_Free s p))"
proof -
  have "chain_inv (My_Free s p) \<and> (no_adjacent_free (blocks s) \<longrightarrow> no_adjacent_free (blocks (My_Free s p)))"
  proof (cases p)
    case None
    then show ?thesis using inv by (simp add: My_Free_def)
  next
    case (Some a)
    show ?thesis
    proof (cases "a - 32 < 0 \<or> MEMORY_POOL_SIZE \<le> a - 32")
      case True
      then show ?thesis using inv Some by (simp add: My_Free_steps)
    next
      case False
      then have b: "a - 32 \<in> set (chain s)" using ok Some by (simp add: release_ok_def)
      have a: "a = (a - 32) + 32" by simp
      show ?thesis
        unfolding Some using My_Free_chain(1) [OF inv b] My_Free_allocated(2) [OF inv b] by simp
    qed
  qed
  then show "chain_inv (My_Free s p)"
    and "no_adjacent_free (blocks s) \<Longrightarrow> no_adjacent_free (blocks (My_Free s p))" by simp_all
qed

lemma take_block_heap:
  assumes sg: "seg (heap s) p None 0 bs None MEMORY_POOL_SIZE"
    and c: "c \<in> set bs" and le: "sz \<le> size_h (heap s c)"
  shows "uint (size_h (heap s c)) \<le> 10240"
    and "uint sz + 64 \<le> uint (size_h (heap s c)) \<Longrightarrow>
           heap (snd (take_block s sz c)) = split_heap (heap s) sz c \<and>
           (\<forall>x. next_h (heap s c) = Some x \<longrightarrow> c + 32 + uint sz < x) \<and>
           (\<exists>xs ys. bs = xs @ c # ys \<and>
              seg (heap (snd (take_block s sz c))) p None 0 (xs @ c # (c + 32 + uint sz) # ys) None
                MEMORY_POOL_SIZE)"
    and "\<not> uint sz + 64 \<le> uint (size_h (heap s c)) \<Longrightarrow>
           heap (snd (take_block s sz c)) = (heap s)(c := (heap s c)\<lparr>status := ALLOCATED\<rparr>) \<and>
           seg (heap (snd (take_block s sz c))) p None 0 bs None MEMORY_POOL_SIZE"
proof -
  let ?h = "heap s"
  let ?nb = "c + 32 + uint sz"
  from sg c obtain xs ys where bs: "bs = xs @ c # ys"
    and sx: "seg ?h p None 0 xs (Some c) c"
    and pr: "prev (?h c) = last_ptr None xs"
    and nx: "seg ?h (next_h (?h c)) (Some c) (block_end ?h c) ys None MEMORY_POOL_SIZE"
    and pre: "\<forall>x\<in>set xs. block_end ?h x \<le> c"
    and post: "\<forall>y\<in>set ys. block_end ?h c \<le> y"
    and e: "block_end ?h c \<le> MEMORY_POOL_SIZE" and c0: "0 \<le> c"
    by (rule seg_split_at)
  show bound: "uint (size_h (?h c)) \<le> 10240"
    using e c0 by (simp add: block_end_def MEMORY_POOL_SIZE_def)
  show "heap (snd (take_block s sz c)) = split_heap ?h sz c \<and>
        (\<forall>x. next_h (?h c) = Some x \<longrightarrow> ?nb < x) \<and>
        (\<exists>xs ys. bs = xs @ c # ys \<and>
           seg (heap (snd (take_block s sz c))) p None 0 (xs @ c # ?nb # ys) None MEMORY_POOL_SIZE)"
    if big: "uint sz + 64 \<le> uint (size_h (?h c))"
  proof -
    have test: "sz + header_size + MIN_BLOCK_SIZE \<le> size_h (?h c)"
      using split_test_uint [OF le bound] big by simp
    have nxt: "\<forall>n. next_h (?h c) = Some n \<longrightarrow> ?nb < n"
    proof (intro allI impI)
      fix n assume n: "next_h (?h c) = Some n"
      then obtain ys' where "ys = n # ys'" using nx by (cases ys) auto
      then have "block_end ?h c \<le> n" using post by simp
      then show "?nb < n" using big by (simp add: block_end_def)
    qed
    have "\<forall>n. next_h (?h c) = Some n \<longrightarrow> n \<noteq> c \<and> n \<noteq> ?nb"
    proof (intro allI impI)
      fix n assume "next_h (?h c) = Some n"
      then have "?nb < n" using nxt by blast
      then show "n \<noteq> c \<and> n \<noteq> ?nb" using uint_ge_0 [of sz]
        by (simp del: uint_ge_0 unsigned_greater_eq)
    qed
    then have h': "heap (snd (take_block s sz c)) = split_heap ?h sz c"
      using take_block_split_heap [OF test] by simp
    have "seg (split_heap ?h sz c) p None 0 (xs @ c # ?nb # ys) None MEMORY_POOL_SIZE"
      using seg_split_heap [OF sg [unfolded bs] big] by blast
    then show ?thesis using h' nxt bs by auto
  qed
  show "heap (snd (take_block s sz c)) = ?h(c := (?h c)\<lparr>status := ALLOCATED\<rparr>) \<and>
        seg (heap (snd (take_block s sz c))) p None 0 bs None MEMORY_POOL_SIZE"
    if small: "\<not> uint sz + 64 \<le> uint (size_h (?h c))"
  proof -
    have test: "\<not> sz + header_size + MIN_BLOCK_SIZE \<le> size_h (?h c)"
      using split_test_uint [OF le bound] small by simp
    have h': "heap (snd (take_block s sz c)) = ?h(c := (?h c)\<lparr>status := ALLOCATED\<rparr>)"
      using take_block_nosplit_heap [OF test] by simp
    have "seg (heap (snd (take_block s sz c))) p None 0 bs None MEMORY_POOL_SIZE"
      using sg seg_fields [of bs "heap (snd (take_block s sz c))" ?h p None 0 None MEMORY_POOL_SIZE]
      by (simp add: h')
    then show ?thesis using h' by simp
  qed
qed

lemma round_uint_next:
  "uint ((n + 3) AND NOT 3 :: size_t) = ((uint n + 3) div 4 * 4) mod 2 ^ 64"
proof (cases "uint n + 3 < 2 ^ 64")
  case True
  have "(uint n + 3) div 4 * 4 \<le> uint n + 3" by simp
  moreover have "0 \<le> (uint n + 3) div 4 * 4"
    using uint_ge_0 [of n] by (simp add: pos_imp_zdiv_nonneg_iff del: uint_ge_0 unsigned_greater_eq)
  ultimately have "((uint n + 3) div 4 * 4) mod 2 ^ 64 = (uint n + 3) div 4 * 4"
    using True by simp
  then show ?thesis using round_uint_small [OF True] by simp
next
  case False
  then have ge: "2 ^ 64 \<le> uint n + 3" by simp
  have lt: "uint n < 2 ^ 64" using uint_lt2p [of n] by simp
  have "(uint n + 3) div 4 = 2 ^ 62" using ge lt by simp
  then have "((uint n + 3) div 4 * 4) mod 2 ^ 64 = 0" by simp
  then show ?thesis using round_wraps [OF ge] by simp
qed

lemma malloc_first_fit_result:
  assumes inv: "chain_inv s" and ini: "is_initialized s \<noteq> 0" and r: "r = (n + 3) AND NOT 3"
  shows "My_Malloc s n =
     Some (if r = 0 then (None, s)
           else case first_fit_spec (uint r) (blocks s) of
                  None \<Rightarrow> (None, s)
                | Some (a, m, st) \<Rightarrow> (Some (a + uint header_size), snd (take_block s r a)))"
proof -
  let ?f = "find (\<lambda>b. status (heap s b) = FREE \<and> r \<le> size_h (heap s b)) (chain s)"
  have ff: "first_fit_spec (uint r) (blocks s) = map_option (block_at (heap s)) ?f"
    unfolding blocks_def by (rule first_fit_spec_map)
  show ?thesis
    unfolding My_Malloc_initialized [OF inv ini r] ff
    by (cases ?f) (simp_all add: block_at_def prod_eq_iff take_block_fst)
qed

lemma My_Free_is_initialized [simp]: "is_initialized (My_Free s p) = is_initialized s"
proof (cases p)
  case None
  then show ?thesis by (simp add: My_Free_def)
next
  case (Some a)
  then show ?thesis by (simp add: My_Free_steps)
qed

lemma allocated_in_chain: "b \<in> allocated_addrs (blocks s) \<Longrightarrow> b \<in> set (chain s)"
  using allocated_addrs_subset [of "blocks s"] blocks_fst [of s] by (metis set_map subsetD)

lemma allocate_all_inv:
  assumes "chain_inv s" and "is_initialized s \<noteq> 0" and "no_adjacent_free (blocks s)"
    and "allocate_all s ns = Some (ps, s')" and "None \<notin> set ps"
  shows "chain_inv s' \<and> is_initialized s' \<noteq> 0 \<and> no_adjacent_free (blocks s') \<and>
    (\<exists>hs. ps = map Some hs \<and> distinct hs \<and>
       (\<lambda>h. h - 32) ` set hs \<inter> allocated_addrs (blocks s) = {} \<and>
       allocated_addrs (blocks s') = allocated_addrs (blocks s) \<union> (\<lambda>h. h - 32) ` set hs)"
  using assms
proof (induction ns arbitrary: s ps)
  case Nil
  then show ?case by simp
next
  case (Cons n ns)
  from Cons.prems(4) obtain p s1 ps1 where m: "My_Malloc s n = Some (p, s1)"
    and a: "allocate_all s1 ns = Some (ps1, s')" and ps: "ps = p # ps1"
    by (auto split: option.splits)
  from Cons.prems(5) ps obtain h where p: "p = Some h" and n1: "None \<notin> set ps1"
    by (cases p) auto
  note su = My_Malloc_success_inv [OF Cons.prems(1,2) m [unfolded p]]
  from Cons.IH [OF su(1,2) su(5) [OF Cons.prems(3)] a n1]
  obtain hs1 where i1: "chain_inv s'" and i2: "is_initialized s' \<noteq> 0"
    and i3: "no_adjacent_free (blocks s')"
    and h1: "ps1 = map Some hs1" and h2: "distinct hs1"
    and h3: "(\<lambda>h. h - 32) ` set hs1 \<inter> allocated_addrs (blocks s1) = {}"
    and h4: "allocated_addrs (blocks s') = allocated_addrs (blocks s1) \<union> (\<lambda>h. h - 32) ` set hs1"
    by blast
  have "h \<notin> set hs1"
  proof
    assume "h \<in> set hs1"
    then have "h - 32 \<in> (\<lambda>h. h - 32) ` set hs1" by blast
    moreover have "h - 32 \<in> allocated_addrs (blocks s1)" using su(3) by simp
    ultimately show False using h3 by blast
  qed
  then have d: "distinct (h # hs1)" using h2 by simp
  have e: "ps = map Some (h # hs1)" using ps p h1 by simp
  have f: "(\<lambda>h. h - 32) ` set (h # hs1) \<inter> allocated_addrs (blocks s) = {}"
    using h3 su(3,4) by auto
  have g: "allocated_addrs (blocks s') = allocated_addrs (blocks s) \<union> (\<lambda>h. h - 32) ` set (h # hs1)"
    using h4 su(3) by auto
  show ?case using i1 i2 i3 d e f g by blast
qed

lemma release_all_inv:
  assumes "chain_inv s" and "no_adjacent_free (blocks s)" and "distinct hs"
    and "allocated_addrs (blocks s) = (\<lambda>h. h - 32) ` set hs"
  shows "chain_inv (release_all s (map Some hs)) \<and>
    no_adjacent_free (blocks (release_all s (map Some hs))) \<and>
    allocated_addrs (blocks (release_all s (map Some hs))) = {} \<and>
    is_initialized (release_all s (map Some hs)) = is_initialized s"
  using assms
proof (induction hs arbitrary: s)
  case Nil
  then show ?case by simp
next
  case (Cons h hs)
  let ?b = "h - 32"
  let ?s = "My_Free s (Some h)"
  have hb: "h = ?b + 32" by simp
  have "?b \<in> allocated_addrs (blocks s)" using Cons.prems(4) by simp
  then have b: "?b \<in> set (chain s)" by (rule allocated_in_chain)
  have 1: "chain_inv ?s" using My_Free_chain(1) [OF Cons.prems(1) b] by simp
  have 2: "no_adjacent_free (blocks ?s)"
    using My_Free_allocated(2) [OF Cons.prems(1) b Cons.prems(2)] by simp
  have 3: "distinct hs" and hn: "h \<notin> set hs" using Cons.prems(3) by simp_all
  have "allocated_addrs (blocks ?s) = allocated_addrs (blocks s) - {?b}"
    using My_Free_allocated(1) [OF Cons.prems(1) b] by simp
  also have "\<dots> = (\<lambda>h. h - 32) ` set hs"
    using hn unfolding Cons.prems(4) by auto
  finally have 4: "allocated_addrs (blocks ?s) = (\<lambda>h. h - 32) ` set hs" .
  show ?case using Cons.IH [OF 1 2 3 4] by simp
qed

lemma no_allocated_single:
  assumes inv: "chain_inv s" and na: "no_adjacent_free (blocks s)"
    and em: "allocated_addrs (blocks s) = {}"
  shows "blocks s = [(0, 10208, FREE)]" and "heap s 0 = init_header" and "first_block s = Some 0"
proof -
  have "length (blocks s) \<le> 1" using only_free_single [OF na em] .
  then have l: "length (chain s) \<le> 1" by (simp add: blocks_def)
  note sb = single_block [OF inv l]
  have "0 \<notin> allocated_addrs (blocks s)" using em by simp
  then have "status (heap s 0) \<noteq> ALLOCATED"
    using sb(1) by (simp add: allocated_addrs_blocks)
  then have st: "status (heap s 0) = FREE" by (cases "status (heap s 0)") simp_all
  show "blocks s = [(0, 10208, FREE)]"
    by (simp add: blocks_def sb(1,3) block_at_def st)
  show "first_block s = Some 0" using sb(2) .
  show "heap s 0 = init_header"
    using sb(3,4,5) st by (cases "heap s 0") (simp add: init_header_def)
qed

lemma mset_map_Some:
  assumes "mset qs = mset (map Some hs)" and "distinct hs"
  shows "\<exists>hs'. qs = map Some hs' \<and> distinct hs' \<and> set hs' = set hs"
proof -
  have s: "set qs = Some ` set hs" using mset_eq_setD [OF assms(1)] by simp
  then have "None \<notin> set qs" by auto
  then have q: "qs = map Some (map the qs)" by (induction qs) auto
  have "distinct (map Some hs)" using assms(2) by (simp add: distinct_map)
  then have "distinct qs" using mset_eq_imp_distinct_iff [OF assms(1)] by simp
  then have "distinct (map Some (map the qs))" using q by simp
  then have d: "distinct (map the qs)" using distinct_map [of Some "map the qs"] by blast
  have "Some ` set (map the qs) = Some ` set hs" using s q by (metis set_map)
  then have "set (map the qs) = set hs" by (simp add: inj_image_eq_iff)
  then show ?thesis using q d by blast
qed

lemma chain_inv_links:
  assumes inv: "chain_inv s" and b: "b \<in> set (chain s)"
  shows "\<forall>n. next_h (heap s b) = Some n \<longrightarrow>
           n \<in> set (chain s) \<and> prev (heap s n) = Some b \<and> n = block_end (heap s) b"
    and "\<forall>q. prev (heap s b) = Some q \<longrightarrow>
           q \<in> set (chain s) \<and> next_h (heap s q) = Some b \<and> b = block_end (heap s) q"
    and "next_h (heap s b) = None \<longrightarrow> block_end (heap s) b = MEMORY_POOL_SIZE"
    and "prev (heap s b) = None \<longrightarrow> b = 0"
proof -
  let ?h = "heap s"
  from chain_invD [OF inv] b obtain xs ys where bs: "chain s = xs @ b # ys"
    and sx: "seg ?h (first_block s) None 0 xs (Some b) b"
    and pr: "prev (?h b) = last_ptr None xs"
    and nx: "seg ?h (next_h (?h b)) (Some b) (block_end ?h b) ys None MEMORY_POOL_SIZE"
    and pre: "\<forall>x\<in>set xs. block_end ?h x \<le> b"
    and post: "\<forall>y\<in>set ys. block_end ?h b \<le> y"
    and e: "block_end ?h b \<le> MEMORY_POOL_SIZE" and c0: "0 \<le> b"
    by (rule seg_split_at)
  show "\<forall>n. next_h (?h b) = Some n \<longrightarrow>
           n \<in> set (chain s) \<and> prev (?h n) = Some b \<and> n = block_end ?h b"
  proof (intro allI impI)
    fix n assume n: "next_h (?h b) = Some n"
    then obtain ys' where ys: "ys = n # ys'" using nx by (cases ys) auto
    then show "n \<in> set (chain s) \<and> prev (?h n) = Some b \<and> n = block_end ?h b"
      using nx n bs by simp
  qed
  show "\<forall>q. prev (?h b) = Some q \<longrightarrow>
           q \<in> set (chain s) \<and> next_h (?h q) = Some b \<and> b = block_end ?h q"
  proof (intro allI impI)
    fix q assume q: "prev (?h b) = Some q"
    then have "xs \<noteq> []" using pr by auto
    then obtain xs' x where xs: "xs = xs' @ [x]" by (cases xs rule: rev_cases) auto
    then have x: "x = q" using pr q by simp
    from sx [unfolded xs seg_append] obtain p' a' where
      "seg ?h p' (last_ptr None xs') a' [x] (Some b) b" by blast
    then have "next_h (?h x) = Some b" "block_end ?h x = b" by simp_all
    then show "q \<in> set (chain s) \<and> next_h (?h q) = Some b \<and> b = block_end ?h q"
      using x xs bs by simp
  qed
  show "next_h (?h b) = None \<longrightarrow> block_end ?h b = MEMORY_POOL_SIZE"
  proof
    assume "next_h (?h b) = None"
    then have "ys = []" using nx by (cases ys) auto
    then show "block_end ?h b = MEMORY_POOL_SIZE" using nx by simp
  qed
  show "prev (?h b) = None \<longrightarrow> b = 0"
  proof
    assume "prev (?h b) = None"
    then have "xs = []" using pr by (cases xs rule: rev_cases) auto
    then show "b = 0" using sx by simp
  qed
qed

section \<open>The claims\<close>

text \<open>
  C1. On an initialized allocator whose chain is well formed, \<^verbatim>\<open>My_Malloc\<close> returns
  (the loop ends). The requested size is first rounded up to the next multiple of 4 in
  the arithmetic of \<^verbatim>\<open>size_t\<close>, that is modulo \<open>2 ^ 64\<close>: the rounded size is the
  next multiple of 4 for every size up to \<^verbatim>\<open>SIZE_MAX - 3\<close>, and it is 0 for the three
  larger sizes. If the rounded size is 0 the call returns the null pointer and the
  unchanged state. Otherwise the blocks of the chain are
  inspected from \<^verbatim>\<open>first_block\<close> on, which is the order of increasing addresses, and for
  the first block that is \<^verbatim>\<open>FREE\<close> and has at least the rounded size the call returns the
  address right after its header; if there is no such block, the call returns the null
  pointer and the unchanged state.
\<close>

theorem My_Malloc_first_fit:
  assumes "chain_inv s" and "is_initialized s \<noteq> 0" and "r = (n + 3) AND NOT 3"
  shows "uint r = round_up4_spec (uint n) mod 2 ^ 64 \<and>
         (uint n \<le> uint SIZE_MAX - 3 \<longrightarrow> uint r = round_up4_spec (uint n)) \<and>
         (uint SIZE_MAX - 3 < uint n \<longrightarrow> r = 0) \<and>
         sorted_wrt (<) (map fst (blocks s)) \<and>
         My_Malloc s n =
           Some (if r = 0 then (None, s)
                 else case first_fit_spec (uint r) (blocks s) of
                        None \<Rightarrow> (None, s)
                      | Some (a, m, st) \<Rightarrow> (Some (a + uint header_size), snd (take_block s r a)))"
proof -
  have m: "uint SIZE_MAX = 2 ^ 64 - 1" by (simp add: SIZE_MAX_def)
  have 1: "uint r = round_up4_spec (uint n) mod 2 ^ 64"
    using assms(3) round_uint_next [of n] by (simp add: round_up4_spec_def)
  have 2: "uint r = round_up4_spec (uint n)" if "uint n \<le> uint SIZE_MAX - 3"
  proof -
    have "uint n + 3 < 2 ^ 64" using that m by simp
    then show ?thesis using assms(3) round_uint_small [of n] by (simp add: round_up4_spec_def)
  qed
  have 3: "r = 0" if "uint SIZE_MAX - 3 < uint n"
  proof -
    have "2 ^ 64 \<le> uint n + 3" using that m by simp
    then show ?thesis using assms(3) round_wraps [of n] by simp
  qed
  have 4: "sorted_wrt (<) (map fst (blocks s))"
    using chain_inv_facts(3) [OF assms(1)] by simp
  show ?thesis using 1 2 3 4 malloc_first_fit_result [OF assms] by blast
qed

theorem My_Malloc_first_fit_witness:
  "chain_inv (scenario_state scenario_B) \<and>
   is_initialized (scenario_state scenario_B) \<noteq> 0 \<and>
   (152 :: size_t) = (150 + 3) AND NOT 3 \<and>
   first_fit_spec 152 (blocks (scenario_state scenario_B)) = Some (132, 200, FREE) \<and>
   My_Malloc (scenario_state scenario_B) 150
     = Some (Some 164, snd (take_block (scenario_state scenario_B) 152 132)) \<and>
   My_Malloc (scenario_state scenario_B) 0 = Some (None, scenario_state scenario_B) \<and>
   first_fit_spec 10240 (blocks (scenario_state scenario_B)) = None \<and>
   My_Malloc (scenario_state scenario_B) 10240 = Some (None, scenario_state scenario_B)"
proof -
  let ?s = "scenario_state scenario_B"
  have 1: "chain_inv ?s" by code_simp
  have 2: "is_initialized ?s \<noteq> 0" by code_simp
  have r1: "(152 :: size_t) = (150 + 3) AND NOT 3" by simp
  have r2: "(0 :: size_t) = (0 + 3) AND NOT 3" by simp
  have r3: "(10240 :: size_t) = (10240 + 3) AND NOT 3" by simp
  have f1: "first_fit_spec 152 (blocks ?s) = Some (132, 200, FREE)" by code_simp
  have f3: "first_fit_spec 10240 (blocks ?s) = None" by code_simp
  have "My_Malloc ?s 150 = Some (Some 164, snd (take_block ?s 152 132))"
    using My_Malloc_first_fit [OF 1 2 r1] by (simp add: f1 header_size_def)
  moreover have "My_Malloc ?s 0 = Some (None, ?s)"
    using My_Malloc_first_fit [OF 1 2 r2] by simp
  moreover have "My_Malloc ?s 10240 = Some (None, ?s)"
    using My_Malloc_first_fit [OF 1 2 r3] by (simp add: f3)
  ultimately show ?thesis using 1 2 f1 f3 by simp
qed

text \<open>
  Without the wrap-around the rounding is not what the code computes: the next multiple
  of 4 at or above \<^verbatim>\<open>SIZE_MAX\<close> is \<open>2 ^ 64\<close>, but line 65 of \<^verbatim>\<open>My_Malloc\<close> yields 0,
  which is below the requested size.
\<close>

theorem My_Malloc_first_fit_counterexample:
  "\<not> (uint ((SIZE_MAX + 3) AND NOT 3 :: size_t) = round_up4_spec (uint SIZE_MAX) \<and>
      uint SIZE_MAX \<le> uint ((SIZE_MAX + 3) AND NOT 3 :: size_t))"
  by (simp add: SIZE_MAX_def round_up4_spec_def)

text \<open>
  C2. Let a call of \<^verbatim>\<open>My_Malloc\<close> on an initialized allocator with a well-formed chain
  return a pointer; let \<open>r\<close> be the rounded size, \<open>c\<close> the header address of the chosen
  block and \<open>nb = c + header_size + r\<close>. The chosen block is a \<^verbatim>\<open>FREE\<close> block of the
  chain with \<open>size \<ge> r\<close>. The test of the code for a split, computed in \<^verbatim>\<open>size_t\<close>,
  holds exactly if \<open>size \<ge> r + header_size + header_size\<close> as integers. If it holds, the
  block at \<open>c\<close> gets size \<open>r\<close>, status \<^verbatim>\<open>ALLOCATED\<close> and successor \<open>nb\<close>; a new
  \<^verbatim>\<open>FREE\<close> header is written at \<open>nb\<close> with size \<open>size - r - header_size\<close> (which is at
  least \<open>header_size\<close>), the old successor of \<open>c\<close> as successor and \<open>c\<close> as predecessor;
  the old successor, if any, gets \<open>nb\<close> as predecessor; the chain is the old chain with
  \<open>nb\<close> inserted after \<open>c\<close>. If it fails, only the status of \<open>c\<close> changes, to
  \<^verbatim>\<open>ALLOCATED\<close>, and the chain stays as it is. In both cases the list of blocks changes as
  the specification words it (\<open>allocate_spec\<close>), and the chain stays well formed.
\<close>

theorem My_Malloc_split:
  assumes "chain_inv s" and "is_initialized s \<noteq> 0" and "r = (n + 3) AND NOT 3"
    and "My_Malloc s n = Some (Some p, s')"
    and "c = p - uint header_size" and "nb = c + uint header_size + uint r"
  shows "c \<in> set (chain s) \<and> status (heap s c) = FREE \<and> r \<le> size_h (heap s c) \<and>
    (r + header_size + MIN_BLOCK_SIZE \<le> size_h (heap s c))
      = (uint r + uint header_size + uint header_size \<le> uint (size_h (heap s c))) \<and>
    blocks s' = allocate_spec (uint r) c (blocks s) \<and> chain_inv s' \<and>
    (if r + header_size + MIN_BLOCK_SIZE \<le> size_h (heap s c)
     then heap s' c = (heap s c)\<lparr>size_h := r, status := ALLOCATED, next_h := Some nb\<rparr> \<and>
          heap s' nb = \<lparr>size_h = size_h (heap s c) - r - header_size, status = FREE,
                        next_h = next_h (heap s c), prev = Some c\<rparr> \<and>
          uint (size_h (heap s' nb)) = uint (size_h (heap s c)) - uint r - uint header_size \<and>
          uint header_size \<le> uint (size_h (heap s' nb)) \<and>
          (case next_h (heap s c) of
             None \<Rightarrow> True
           | Some x \<Rightarrow> heap s' x = (heap s x)\<lparr>prev := Some nb\<rparr>) \<and>
          (\<exists>xs ys. chain s = xs @ c # ys \<and> chain s' = xs @ c # nb # ys)
     else heap s' = (heap s)(c := (heap s c)\<lparr>status := ALLOCATED\<rparr>) \<and> chain s' = chain s)"
proof -
  have c: "c = p - 32" and nb: "nb = c + 32 + uint r" using assms(5,6) by simp_all
  note su = My_Malloc_success [OF assms(1,2,4,3), folded c]
  have cin: "c \<in> set (chain s)" and fr: "status (heap s c) = FREE" and le: "r \<le> size_h (heap s c)"
    and s': "s' = snd (take_block s r c)" using su by simp_all
  note tc = take_block_chain [OF assms(1) cin le s']
  note sg = chain_invD [OF assms(1)]
  note th = take_block_heap [OF sg cin le, folded s']
  have test: "(r + header_size + MIN_BLOCK_SIZE \<le> size_h (heap s c))
      = (uint r + 64 \<le> uint (size_h (heap s c)))"
    using split_test_uint [OF le th(1)] .
  have A: "c \<in> set (chain s) \<and> status (heap s c) = FREE \<and> r \<le> size_h (heap s c) \<and>
    (r + header_size + MIN_BLOCK_SIZE \<le> size_h (heap s c))
      = (uint r + uint header_size + uint header_size \<le> uint (size_h (heap s c))) \<and>
    blocks s' = allocate_spec (uint r) c (blocks s) \<and> chain_inv s'"
  proof -
    have "(uint r + uint header_size + uint header_size \<le> uint (size_h (heap s c)))
        = (uint r + 64 \<le> uint (size_h (heap s c)))" by (simp add: add.commute)
    then show ?thesis using cin fr le test tc(1,2) by blast
  qed
  show ?thesis
  proof (cases "uint r + 64 \<le> uint (size_h (heap s c))")
    case True
    from th(2) [OF True] obtain xs ys where
      h': "heap s' = split_heap (heap s) r c"
      and nx: "\<forall>x. next_h (heap s c) = Some x \<longrightarrow> c + 32 + uint r < x"
      and bs: "chain s = xs @ c # ys"
      and sg': "seg (heap s') (first_block s) None 0 (xs @ c # (c + 32 + uint r) # ys) None MEMORY_POOL_SIZE"
      by blast
    have "seg (heap s') (first_block s') None 0 (xs @ c # nb # ys) None MEMORY_POOL_SIZE"
      using sg' tc(3) nb by simp
    then have ch: "chain s' = xs @ c # nb # ys" by (rule chain_eq)
    have cnb: "c \<noteq> nb" using nb uint_ge_0 [of r] by (simp del: uint_ge_0 unsigned_greater_eq)
    have 1: "heap s' c = (heap s c)\<lparr>size_h := r, status := ALLOCATED, next_h := Some nb\<rparr>"
      by (simp add: h' split_heap_def nb)
    have 2: "heap s' nb = \<lparr>size_h = size_h (heap s c) - r - header_size, status = FREE,
                        next_h = next_h (heap s c), prev = Some c\<rparr>"
      using cnb by (simp add: h' split_heap_def nb)
    have 3: "uint (size_h (heap s' nb)) = uint (size_h (heap s c)) - uint r - 32"
      using split_rest_uint [OF True] by (simp add: 2)
    have 4: "case next_h (heap s c) of
               None \<Rightarrow> True
             | Some x \<Rightarrow> heap s' x = (heap s x)\<lparr>prev := Some nb\<rparr>"
    proof (cases "next_h (heap s c)")
      case None
      then show ?thesis by simp
    next
      case (Some x)
      then have "c + 32 + uint r < x" using nx by blast
      then have "x \<noteq> c" "x \<noteq> c + 32 + uint r" using uint_ge_0 [of r]
        by (simp_all del: uint_ge_0 unsigned_greater_eq)
      then show ?thesis using Some by (simp add: h' split_heap_def nb)
    qed
    have 5: "\<exists>xs ys. chain s = xs @ c # ys \<and> chain s' = xs @ c # nb # ys"
      using bs ch by blast
    have 6: "uint header_size \<le> uint (size_h (heap s' nb))" using 3 True by simp
    have 7: "uint (size_h (heap s' nb)) = uint (size_h (heap s c)) - uint r - uint header_size"
      using 3 by simp
    have "r + header_size + MIN_BLOCK_SIZE \<le> size_h (heap s c)" using test True by simp
    then show ?thesis using A 1 2 4 5 6 7 by (simp only: if_True simp_thms)
  next
    case False
    from th(3) [OF False] have h': "heap s' = (heap s)(c := (heap s c)\<lparr>status := ALLOCATED\<rparr>)"
      and sg': "seg (heap s') (first_block s) None 0 (chain s) None MEMORY_POOL_SIZE" by blast+
    have "seg (heap s') (first_block s') None 0 (chain s) None MEMORY_POOL_SIZE"
      using sg' tc(3) by simp
    then have ch: "chain s' = chain s" by (rule chain_eq)
    have "\<not> r + header_size + MIN_BLOCK_SIZE \<le> size_h (heap s c)" using test False by simp
    then show ?thesis using A h' ch by (simp only: if_False simp_thms)
  qed
qed

theorem My_Malloc_split_witness:
  "chain_inv (Memory_Init start_state) \<and>
   is_initialized (Memory_Init start_state) \<noteq> 0 \<and>
   (100 :: size_t) = (100 + 3) AND NOT 3 \<and>
   My_Malloc (Memory_Init start_state) 100
     = Some (Some 32, snd (take_block (Memory_Init start_state) 100 0)) \<and>
   (0 :: int) = 32 - uint header_size \<and>
   (132 :: int) = 0 + uint header_size + uint (100 :: size_t) \<and>
   blocks (Memory_Init start_state) = [(0, 10208, FREE)] \<and>
   blocks (snd (take_block (Memory_Init start_state) 100 0))
     = [(0, 100, ALLOCATED), (132, 10076, FREE)] \<and>
   chain_inv (scenario_state scenario_B) \<and>
   is_initialized (scenario_state scenario_B) \<noteq> 0 \<and>
   (180 :: size_t) = (180 + 3) AND NOT 3 \<and>
   My_Malloc (scenario_state scenario_B) 180
     = Some (Some 164, snd (take_block (scenario_state scenario_B) 180 132)) \<and>
   blocks (scenario_state scenario_B)
     = [(0, 100, ALLOCATED), (132, 200, FREE), (364, 300, ALLOCATED), (696, 9512, FREE)] \<and>
   blocks (snd (take_block (scenario_state scenario_B) 180 132))
     = [(0, 100, ALLOCATED), (132, 200, ALLOCATED), (364, 300, ALLOCATED), (696, 9512, FREE)]"
proof -
  let ?s = "Memory_Init start_state"
  let ?t = "scenario_state scenario_B"
  have s1: "chain_inv ?s" by code_simp
  have s2: "is_initialized ?s \<noteq> 0" by code_simp
  have sr: "(100 :: size_t) = (100 + 3) AND NOT 3" by simp
  have sf: "first_fit_spec 100 (blocks ?s) = Some (0, 10208, FREE)" by code_simp
  have sm: "My_Malloc ?s 100 = Some (Some 32, snd (take_block ?s 100 0))"
    using malloc_first_fit_result [OF s1 s2 sr] by (simp add: sf header_size_def)
  have sc: "(0 :: int) = 32 - uint header_size" by (simp add: header_size_def)
  have sn: "(132 :: int) = 0 + uint header_size + uint (100 :: size_t)" by (simp add: header_size_def)
  have sb: "blocks ?s = [(0, 10208, FREE)]" by code_simp
  from My_Malloc_split [OF s1 s2 sr sm sc sn]
  have "blocks (snd (take_block ?s 100 0)) = allocate_spec (uint (100 :: size_t)) 0 (blocks ?s)"
    by blast
  then have sx: "blocks (snd (take_block ?s 100 0)) = [(0, 100, ALLOCATED), (132, 10076, FREE)]"
    unfolding sb by (simp add: header_size_def)
  have t1: "chain_inv ?t" by code_simp
  have t2: "is_initialized ?t \<noteq> 0" by code_simp
  have tr: "(180 :: size_t) = (180 + 3) AND NOT 3" by simp
  have tf: "first_fit_spec 180 (blocks ?t) = Some (132, 200, FREE)" by code_simp
  have tm: "My_Malloc ?t 180 = Some (Some 164, snd (take_block ?t 180 132))"
    using malloc_first_fit_result [OF t1 t2 tr] by (simp add: tf header_size_def)
  have tc: "(132 :: int) = 164 - uint header_size" by (simp add: header_size_def)
  have tn: "(344 :: int) = 132 + uint header_size + uint (180 :: size_t)" by (simp add: header_size_def)
  have tb: "blocks ?t = [(0, 100, ALLOCATED), (132, 200, FREE), (364, 300, ALLOCATED), (696, 9512, FREE)]"
    by code_simp
  from My_Malloc_split [OF t1 t2 tr tm tc tn]
  have "blocks (snd (take_block ?t 180 132)) = allocate_spec (uint (180 :: size_t)) 132 (blocks ?t)"
    by blast
  then have tx: "blocks (snd (take_block ?t 180 132))
      = [(0, 100, ALLOCATED), (132, 200, ALLOCATED), (364, 300, ALLOCATED), (696, 9512, FREE)]"
    unfolding tb by (simp add: header_size_def)
  show ?thesis using s1 s2 sr sm sc sn sb sx t1 t2 tr tm tb tx by blast
qed

text \<open>
  C3. Let \<open>p\<close> be the data pointer of a block \<open>b\<close> of a well-formed chain. \<^verbatim>\<open>My_Free\<close>
  keeps the chain well formed (so the \<^verbatim>\<open>next\<close> and \<^verbatim>\<open>prev\<close> pointers around a merged
  block are set right), and the list of blocks changes as the specification words it
  (\<open>release_spec\<close>): first \<open>b\<close> is marked \<^verbatim>\<open>FREE\<close>; then, if \<open>b\<close> has a successor and
  that is \<^verbatim>\<open>FREE\<close>, the successor leaves the chain and its header size and data size are
  added to the size of \<open>b\<close>; then, if \<open>b\<close> has a predecessor and that is \<^verbatim>\<open>FREE\<close>, \<open>b\<close>
  (with the size it has by now) is folded into the predecessor in the same way. In
  particular, if both neighbours of \<open>b\<close> are \<^verbatim>\<open>FREE\<close>, the three blocks become one
  \<^verbatim>\<open>FREE\<close> block at the address of the predecessor that spans all three.
\<close>

theorem My_Free_coalesce:
  assumes "chain_inv s" and "b \<in> set (chain s)" and "p = Some (b + uint header_size)"
  shows "chain_inv (My_Free s p) \<and>
    blocks (My_Free s p) = release_spec b (blocks s) \<and>
    (\<forall>X n st Y. blocks s = X @ (b, n, st) # Y \<longrightarrow>
       mark_free_spec b (blocks s) = X @ (b, n, FREE) # Y) \<and>
    (\<forall>X n st Y.
       blocks s = X @ (b, n, st) # Y \<and>
       (X = [] \<or> block_status (last X) = ALLOCATED) \<and>
       (Y = [] \<or> block_status (hd Y) = ALLOCATED) \<longrightarrow>
       blocks (My_Free s p) = X @ (b, n, FREE) # Y) \<and>
    (\<forall>X n st na nn Y.
       blocks s = X @ (b, n, st) # (na, nn, FREE) # Y \<and>
       (X = [] \<or> block_status (last X) = ALLOCATED) \<longrightarrow>
       blocks (My_Free s p) = X @ (b, n + (uint header_size + nn), FREE) # Y) \<and>
    (\<forall>X pa pn n st Y.
       blocks s = X @ (pa, pn, FREE) # (b, n, st) # Y \<and>
       (Y = [] \<or> block_status (hd Y) = ALLOCATED) \<longrightarrow>
       blocks (My_Free s p) = X @ (pa, pn + (uint header_size + n), FREE) # Y) \<and>
    (\<forall>X pa pn n st na nn Y.
       blocks s = X @ (pa, pn, FREE) # (b, n, st) # (na, nn, FREE) # Y \<longrightarrow>
       blocks (My_Free s p)
         = X @ (pa, pn + (uint header_size + (n + (uint header_size + nn))), FREE) # Y)"
proof -
  have p: "p = Some (b + 32)" using assms(3) by simp
  note fr = My_Free_chain [OF assms(1,2), folded p]
  have d: "distinct (map fst (blocks s))" using chain_distinct [OF assms(1)] by simp
  have mk: "mark_free_spec b (blocks s) = X @ (b, n, FREE) # Y"
    if eq: "blocks s = X @ (b, n, st) # Y" for X n st Y
  proof -
    have "\<forall>x\<in>set X. fst x \<noteq> b" using d unfolding eq by auto
    then show ?thesis unfolding eq by (rule mark_free_spec_append)
  qed
  have three: "blocks (My_Free s p) = X @ (pa, pn + (uint header_size + (n + (uint header_size + nn))), FREE) # Y"
    if eq: "blocks s = X @ (pa, pn, FREE) # (b, n, st) # (na, nn, FREE) # Y"
    for X pa pn n st na nn Y
  proof -
    have X: "\<forall>x\<in>set X. fst x \<noteq> b" and pa: "pa \<noteq> b" using d unfolding eq by auto
    then have X': "\<forall>x\<in>set (X @ [(pa, pn, FREE)]). fst x \<noteq> b" by simp
    have e: "blocks s = (X @ [(pa, pn, FREE)]) @ (b, n, st) # (na, nn, FREE) # Y"
      using eq by simp
    have 1: "mark_free_spec b (blocks s) = (X @ [(pa, pn, FREE)]) @ (b, n, FREE) # (na, nn, FREE) # Y"
      unfolding e by (rule mark_free_spec_append [OF X'])
    have 2: "forward_coalesce_spec b (mark_free_spec b (blocks s))
        = X @ (pa, pn, FREE) # (b, n + (32 + nn), FREE) # Y"
      unfolding 1 forward_coalesce_spec_append [OF X'] by simp
    have 3: "backward_coalesce_spec b (X @ (pa, pn, FREE) # (b, n + (32 + nn), FREE) # Y)
        = X @ (pa, pn + (32 + (n + (32 + nn))), FREE) # Y"
      unfolding backward_coalesce_spec_append [OF X pa] by simp
    show ?thesis unfolding fr(2) release_spec_def 2 3 by simp
  qed
  have fwd_none: "forward_coalesce_spec b (X @ (b, n, FREE) # Y) = X @ (b, n, FREE) # Y"
    if "\<forall>x\<in>set X. fst x \<noteq> b" and "Y = [] \<or> block_status (hd Y) = ALLOCATED" for X n Y
    unfolding forward_coalesce_spec_append [OF that(1)] using that(2)
    by (cases Y) (auto split: prod.splits)
  have bwd_none: "backward_coalesce_spec b (X @ (b, n, FREE) # Y) = X @ (b, n, FREE) # Y"
    if X: "\<forall>x\<in>set X. fst x \<noteq> b" and Y: "\<forall>y\<in>set Y. fst y \<noteq> b"
      and l: "X = [] \<or> block_status (last X) = ALLOCATED" for X n Y
  proof (cases X rule: rev_cases)
    case Nil
    then show ?thesis using backward_coalesce_spec_absent [OF Y] by simp
  next
    case (snoc X' q)
    obtain qa qn qst where q: "q = (qa, qn, qst)" by (cases q) auto
    have X': "\<forall>x\<in>set X'. fst x \<noteq> b" and qa: "qa \<noteq> b" using X snoc q by auto
    have "qst = ALLOCATED" using l snoc q by simp
    then show ?thesis
      using backward_coalesce_spec_append [OF X' qa, of qn qst n FREE Y] snoc q by simp
  qed
  have none: "blocks (My_Free s p) = X @ (b, n, FREE) # Y"
    if eq: "blocks s = X @ (b, n, st) # Y"
      and l: "X = [] \<or> block_status (last X) = ALLOCATED"
      and r: "Y = [] \<or> block_status (hd Y) = ALLOCATED" for X n st Y
  proof -
    have X: "\<forall>x\<in>set X. fst x \<noteq> b" and Y: "\<forall>y\<in>set Y. fst y \<noteq> b" using d unfolding eq by auto
    show ?thesis
      unfolding fr(2) release_spec_def mk [OF eq] fwd_none [OF X r] bwd_none [OF X Y l] ..
  qed
  have fwd: "blocks (My_Free s p) = X @ (b, n + (uint header_size + nn), FREE) # Y"
    if eq: "blocks s = X @ (b, n, st) # (na, nn, FREE) # Y"
      and l: "X = [] \<or> block_status (last X) = ALLOCATED" for X n st na nn Y
  proof -
    have X: "\<forall>x\<in>set X. fst x \<noteq> b" and Y: "\<forall>y\<in>set Y. fst y \<noteq> b" using d unfolding eq by auto
    have 2: "forward_coalesce_spec b (X @ (b, n, FREE) # (na, nn, FREE) # Y)
        = X @ (b, n + (32 + nn), FREE) # Y"
      unfolding forward_coalesce_spec_append [OF X] by simp
    show ?thesis
      unfolding fr(2) release_spec_def mk [OF eq] 2 bwd_none [OF X Y l] by simp
  qed
  have bwd: "blocks (My_Free s p) = X @ (pa, pn + (uint header_size + n), FREE) # Y"
    if eq: "blocks s = X @ (pa, pn, FREE) # (b, n, st) # Y"
      and r: "Y = [] \<or> block_status (hd Y) = ALLOCATED" for X pa pn n st Y
  proof -
    have X: "\<forall>x\<in>set X. fst x \<noteq> b" and pa: "pa \<noteq> b" using d unfolding eq by auto
    then have X': "\<forall>x\<in>set (X @ [(pa, pn, FREE)]). fst x \<noteq> b" by simp
    have e: "blocks s = (X @ [(pa, pn, FREE)]) @ (b, n, st) # Y" using eq by simp
    have 1: "mark_free_spec b (blocks s) = (X @ [(pa, pn, FREE)]) @ (b, n, FREE) # Y"
      by (rule mk [OF e])
    have 2: "forward_coalesce_spec b ((X @ [(pa, pn, FREE)]) @ (b, n, FREE) # Y)
        = X @ (pa, pn, FREE) # (b, n, FREE) # Y"
      using fwd_none [OF X' r] by simp
    have 3: "backward_coalesce_spec b (X @ (pa, pn, FREE) # (b, n, FREE) # Y)
        = X @ (pa, pn + (32 + n), FREE) # Y"
      unfolding backward_coalesce_spec_append [OF X pa] by simp
    show ?thesis unfolding fr(2) release_spec_def 1 2 3 by simp
  qed
  show ?thesis using fr(1,2) mk none fwd bwd three by blast
qed

theorem My_Free_coalesce_witness:
  "chain_inv (scenario_state scenario_C) \<and>
   364 \<in> set (chain (scenario_state scenario_C)) \<and>
   Some (396 :: int) = Some (364 + uint header_size) \<and>
   blocks (scenario_state scenario_C) = [(0, 332, FREE), (364, 300, ALLOCATED), (696, 9512, FREE)] \<and>
   chain_inv (My_Free (scenario_state scenario_C) (Some 396)) \<and>
   blocks (My_Free (scenario_state scenario_C) (Some 396)) = [(0, 10208, FREE)]"
proof -
  let ?s = "scenario_state scenario_C"
  have 1: "chain_inv ?s" by code_simp
  have 2: "364 \<in> set (chain ?s)" by code_simp
  have 3: "Some (396 :: int) = Some (364 + uint header_size)" by (simp add: header_size_def)
  have 4: "blocks ?s = [] @ (0, 332, FREE) # (364, 300, ALLOCATED) # (696, 9512, FREE) # []"
    by code_simp
  note t = My_Free_coalesce [OF 1 2 3]
  from t have 5: "chain_inv (My_Free ?s (Some 396))" by blast
  from t 4 have "blocks (My_Free ?s (Some 396))
      = [] @ (0, 332 + (uint header_size + (300 + (uint header_size + 9512))), FREE) # []"
    by blast
  then have 6: "blocks (My_Free ?s (Some 396)) = [(0, 10208, FREE)]"
    by (simp add: header_size_def)
  show ?thesis using 1 2 3 4 5 6 by simp
qed

text \<open>
  C4. The chain invariant \<open>chain_inv\<close> says that the list starting at \<^verbatim>\<open>first_block\<close> is
  doubly linked, starts at offset 0 of the pool, has every block end exactly where its
  successor begins, and ends at offset \<^verbatim>\<open>MEMORY_POOL_SIZE\<close>. It holds after
  \<^verbatim>\<open>Memory_Init\<close> (on an uninitialized state, and on a state that has it);
  \<^verbatim>\<open>My_Malloc\<close> returns and preserves it for every size; \<^verbatim>\<open>My_Free\<close> preserves it for
  a null pointer, a pointer outside the pool and the data pointer of a block of the chain.
  In a state with the invariant \<^verbatim>\<open>first_block\<close> is the first byte of the pool, the
  blocks are in strictly increasing address order and occupy exactly
  \<^verbatim>\<open>MEMORY_POOL_SIZE\<close> bytes, and for every block \<open>b\<close> of the chain: a non-null
  \<^verbatim>\<open>next\<close> is a block of the chain that starts where \<open>b\<close> ends and whose \<^verbatim>\<open>prev\<close> is
  \<open>b\<close>; a non-null \<^verbatim>\<open>prev\<close> is a block of the chain that ends where \<open>b\<close> starts and
  whose \<^verbatim>\<open>next\<close> is \<open>b\<close>; a block with null \<^verbatim>\<open>next\<close> ends with the pool, and a block
  with null \<^verbatim>\<open>prev\<close> starts it.
\<close>

theorem chain_invariant:
  "(is_initialized s = 0 \<or> chain_inv s \<longrightarrow> chain_inv (Memory_Init s)) \<and>
   (chain_inv s \<longrightarrow> (\<exists>p s'. My_Malloc s n = Some (p, s') \<and> chain_inv s')) \<and>
   (chain_inv s \<and> release_ok s q \<longrightarrow> chain_inv (My_Free s q)) \<and>
   (chain_inv s \<longrightarrow>
      first_block s = Some 0 \<and> hd (chain s) = 0 \<and> sorted_wrt (<) (chain s) \<and>
      chain_bytes s = MEMORY_POOL_SIZE \<and>
      (\<forall>b \<in> set (chain s).
         (\<forall>x. next_h (heap s b) = Some x \<longrightarrow>
            x \<in> set (chain s) \<and> prev (heap s x) = Some b \<and> x = block_end (heap s) b) \<and>
         (\<forall>x. prev (heap s b) = Some x \<longrightarrow>
            x \<in> set (chain s) \<and> next_h (heap s x) = Some b \<and> b = block_end (heap s) x) \<and>
         (next_h (heap s b) = None \<longrightarrow> block_end (heap s) b = MEMORY_POOL_SIZE) \<and>
         (prev (heap s b) = None \<longrightarrow> b = 0)))"
proof -
  have A: "chain_inv (Memory_Init s)" if "is_initialized s = 0 \<or> chain_inv s"
  proof (cases "is_initialized s = 0")
    case True
    then show ?thesis by (rule Memory_Init_chain(1))
  next
    case False
    then show ?thesis using that by (simp add: Memory_Init_done)
  qed
  have B: "\<exists>p s'. My_Malloc s n = Some (p, s') \<and> chain_inv s'" if "chain_inv s"
    using My_Malloc_returns [OF that, of n] by blast
  have C: "chain_inv (My_Free s q)" if "chain_inv s \<and> release_ok s q"
    using My_Free_release_ok(1) [of s q] that by blast
  have D: "first_block s = Some 0 \<and> hd (chain s) = 0 \<and> sorted_wrt (<) (chain s) \<and>
      chain_bytes s = MEMORY_POOL_SIZE" if "chain_inv s"
    using chain_inv_facts [OF that] by blast
  have E: "(\<forall>x. next_h (heap s b) = Some x \<longrightarrow>
            x \<in> set (chain s) \<and> prev (heap s x) = Some b \<and> x = block_end (heap s) b) \<and>
         (\<forall>x. prev (heap s b) = Some x \<longrightarrow>
            x \<in> set (chain s) \<and> next_h (heap s x) = Some b \<and> b = block_end (heap s) x) \<and>
         (next_h (heap s b) = None \<longrightarrow> block_end (heap s) b = MEMORY_POOL_SIZE) \<and>
         (prev (heap s b) = None \<longrightarrow> b = 0)" if "chain_inv s" "b \<in> set (chain s)" for b
    by (intro conjI) (rule chain_inv_links [OF that])+
  show ?thesis using A B C D E by (intro conjI impI ballI) blast+
qed

theorem chain_invariant_witness:
  "is_initialized start_state = 0 \<and>
   chain_inv (scenario_state scenario_B) \<and>
   release_ok (scenario_state scenario_B) (Some 32) \<and>
   chain_inv (Memory_Init start_state) \<and>
   (\<exists>p s'. My_Malloc (scenario_state scenario_B) 64 = Some (p, s') \<and> chain_inv s') \<and>
   chain_inv (My_Free (scenario_state scenario_B) (Some 32)) \<and>
   chain (scenario_state scenario_B) = [0, 132, 364, 696] \<and>
   chain_bytes (scenario_state scenario_B) = MEMORY_POOL_SIZE"
proof -
  have 1: "is_initialized start_state = 0" by (simp add: start_state_def)
  have 2: "chain_inv (scenario_state scenario_B)" by code_simp
  have 3: "release_ok (scenario_state scenario_B) (Some 32)" by code_simp
  have 4: "chain (scenario_state scenario_B) = [0, 132, 364, 696]" by code_simp
  note t = chain_invariant [of start_state] chain_invariant [of "scenario_state scenario_B" 64 "Some 32"]
  show ?thesis using 1 2 3 4 t by blast
qed

text \<open>
  C5. In a state with the chain invariant in which no two neighbouring blocks of the chain
  are both \<^verbatim>\<open>FREE\<close>, the same holds after \<^verbatim>\<open>My_Free\<close> returns, for a null pointer, a
  pointer outside the pool and the data pointer of a block of the chain, and the chain
  is still well formed.
\<close>

theorem coalescing_invariant:
  "chain_inv s \<Longrightarrow> release_ok s p \<Longrightarrow> no_adjacent_free (blocks s) \<Longrightarrow>
   chain_inv (My_Free s p) \<and> no_adjacent_free (blocks (My_Free s p))"
  using My_Free_release_ok by blast

theorem coalescing_invariant_witness:
  "chain_inv (scenario_state scenario_B) \<and>
   release_ok (scenario_state scenario_B) (Some 32) \<and>
   no_adjacent_free (blocks (scenario_state scenario_B)) \<and>
   blocks (scenario_state scenario_B)
     = [(0, 100, ALLOCATED), (132, 200, FREE), (364, 300, ALLOCATED), (696, 9512, FREE)] \<and>
   no_adjacent_free (blocks (My_Free (scenario_state scenario_B) (Some 32))) \<and>
   blocks (My_Free (scenario_state scenario_B) (Some 32))
     = [(0, 332, FREE), (364, 300, ALLOCATED), (696, 9512, FREE)]"
proof -
  have 1: "chain_inv (scenario_state scenario_B)" by code_simp
  have 2: "release_ok (scenario_state scenario_B) (Some 32)" by code_simp
  have 3: "no_adjacent_free (blocks (scenario_state scenario_B))" by code_simp
  have 4: "blocks (scenario_state scenario_B)
     = [(0, 100, ALLOCATED), (132, 200, FREE), (364, 300, ALLOCATED), (696, 9512, FREE)]"
    by code_simp
  have 5: "blocks (My_Free (scenario_state scenario_B) (Some 32))
     = [(0, 332, FREE), (364, 300, ALLOCATED), (696, 9512, FREE)]" by code_simp
  show ?thesis using 1 2 3 4 5 coalescing_invariant [OF 1 2 3] by blast
qed

text \<open>
  C6. Start from a freshly initialized allocator (\<^verbatim>\<open>Memory_Init\<close> on an uninitialized
  state), run any sequence of \<^verbatim>\<open>My_Malloc\<close> calls that all return a pointer, and then
  release exactly the returned pointers, in any order. Then the chain is again the single
  \<^verbatim>\<open>FREE\<close> block of size \<^verbatim>\<open>MEMORY_POOL_SIZE - sizeof (MemoryBlockHeader)\<close> at the start of
  the pool: the list of blocks, \<^verbatim>\<open>first_block\<close> and the header at offset 0 are those of
  the freshly initialized state.
\<close>

theorem alloc_release_round_trip:
  assumes "is_initialized s = 0"
    and "allocate_all (Memory_Init s) ns = Some (ps, s1)"
    and "None \<notin> set ps"
    and "mset qs = mset ps"
  shows "blocks (release_all s1 qs) = [(0, MEMORY_POOL_SIZE - uint header_size, FREE)] \<and>
    blocks (release_all s1 qs) = blocks (Memory_Init s) \<and>
    chain_inv (release_all s1 qs) \<and>
    first_block (release_all s1 qs) = first_block (Memory_Init s) \<and>
    heap (release_all s1 qs) 0 = heap (Memory_Init s) 0 \<and>
    is_initialized (release_all s1 qs) \<noteq> 0"
proof -
  let ?s0 = "Memory_Init s"
  note ini = Memory_Init_chain [OF assms(1)]
  have i0: "is_initialized ?s0 \<noteq> 0" by (simp add: Memory_Init_first [OF assms(1)])
  have na0: "no_adjacent_free (blocks ?s0)" and al0: "allocated_addrs (blocks ?s0) = {}"
    unfolding ini(2) by simp_all
  from allocate_all_inv [OF ini(1) i0 na0 assms(2,3)]
  obtain hs where 1: "chain_inv s1" and 2: "is_initialized s1 \<noteq> 0"
    and 3: "no_adjacent_free (blocks s1)"
    and ps: "ps = map Some hs" and d: "distinct hs"
    and al: "allocated_addrs (blocks s1) = (\<lambda>h. h - 32) ` set hs"
    unfolding al0 by auto
  from mset_map_Some [OF assms(4) [unfolded ps] d]
  obtain hs' where qs: "qs = map Some hs'" and d': "distinct hs'" and se: "set hs' = set hs"
    by blast
  have al': "allocated_addrs (blocks s1) = (\<lambda>h. h - 32) ` set hs'" using al se by simp
  let ?e = "release_all s1 qs"
  from release_all_inv [OF 1 3 d' al']
  have e1: "chain_inv ?e" and e2: "no_adjacent_free (blocks ?e)"
    and e3: "allocated_addrs (blocks ?e) = {}" and e4: "is_initialized ?e = is_initialized s1"
    unfolding qs by blast+
  note fin = no_allocated_single [OF e1 e2 e3]
  have h0: "heap ?s0 0 = init_header" and f0: "first_block ?s0 = Some 0"
    by (simp_all add: Memory_Init_first [OF assms(1)])
  have sz: "MEMORY_POOL_SIZE - uint header_size = 10208"
    by (simp add: MEMORY_POOL_SIZE_def)
  show ?thesis unfolding sz using fin ini(2) e1 h0 f0 e4 2 by simp
qed

theorem alloc_release_round_trip_witness:
  "is_initialized start_state = 0 \<and>
   map_option fst (allocate_all (Memory_Init start_state) [100, 200, 300])
     = Some [Some 32, Some 164, Some 396] \<and>
   None \<notin> set [Some 32, Some 164, Some (396 :: int)] \<and>
   mset [Some 164, Some 32, Some 396] = mset [Some 32, Some 164, Some (396 :: int)] \<and>
   blocks (release_all (snd (the (allocate_all (Memory_Init start_state) [100, 200, 300])))
             [Some 164, Some 32, Some 396])
     = [(0, 10208, FREE)]"
proof -
  let ?A = "allocate_all (Memory_Init start_state) [100, 200, 300]"
  have 1: "is_initialized start_state = 0" by (simp add: start_state_def)
  have f: "map_option fst ?A = Some [Some 32, Some 164, Some 396]" by code_simp
  then obtain r where r: "?A = Some r" and fr: "fst r = [Some 32, Some 164, Some 396]"
    by auto
  have 2: "?A = Some ([Some 32, Some 164, Some 396], snd (the ?A))"
    using r fr by (simp add: prod_eq_iff)
  have 3: "None \<notin> set [Some 32, Some 164, Some (396 :: int)]" by simp
  have 4: "mset [Some 164, Some 32, Some 396] = mset [Some 32, Some 164, Some (396 :: int)]"
    by simp
  from alloc_release_round_trip [OF 1 2 3 4]
  have "blocks (release_all (snd (the ?A)) [Some 164, Some 32, Some 396])
      = [(0, MEMORY_POOL_SIZE - uint header_size, FREE)]" by blast
  then have 5: "blocks (release_all (snd (the ?A)) [Some 164, Some 32, Some 396]) = [(0, 10208, FREE)]"
    by (simp add: MEMORY_POOL_SIZE_def)
  show ?thesis using 1 f 3 4 5 by blast
qed

text \<open>
  C7. \<^verbatim>\<open>Memory_Init\<close> is idempotent. The first call (on a state whose flag
  \<^verbatim>\<open>is_initialized\<close> is 0) writes one header at the first byte of the pool, with size
  \<^verbatim>\<open>MEMORY_POOL_SIZE - sizeof (MemoryBlockHeader)\<close>, status \<^verbatim>\<open>FREE\<close> and null
  \<^verbatim>\<open>next\<close> and \<^verbatim>\<open>prev\<close>, lets \<^verbatim>\<open>first_block\<close> point to it and sets the flag; the
  chain is then this single block. A call on an initialized state changes nothing, so two
  calls give the state of one call. The function is total: it has no error result.
\<close>

theorem Memory_Init_idempotent:
  "Memory_Init (Memory_Init s) = Memory_Init s \<and>
   (if is_initialized s = 0
    then Memory_Init s
           = s\<lparr>heap := (heap s)(0 := \<lparr>size_h = word_of_int MEMORY_POOL_SIZE - header_size,
                                      status = FREE, next_h = None, prev = None\<rparr>),
               first_block := Some 0, is_initialized := 1\<rparr>
         \<and> chain_inv (Memory_Init s)
         \<and> blocks (Memory_Init s) = [(0, MEMORY_POOL_SIZE - uint header_size, FREE)]
    else Memory_Init s = s)"
proof (cases "is_initialized s = 0")
  case True
  have "(word_of_int MEMORY_POOL_SIZE - header_size :: size_t) = 10208"
    by (simp add: MEMORY_POOL_SIZE_def header_size_def)
  then show ?thesis
    using True Memory_Init_first [OF True] Memory_Init_chain [OF True] Memory_Init_idem [of s]
    by (simp add: init_header_def MEMORY_POOL_SIZE_def header_size_def)
next
  case False
  then show ?thesis by (simp add: Memory_Init_done)
qed

theorem Memory_Init_idempotent_witness:
  "is_initialized start_state = 0 \<and>
   Memory_Init (Memory_Init start_state) = Memory_Init start_state \<and>
   first_block (Memory_Init start_state) = Some 0 \<and>
   is_initialized (Memory_Init start_state) = 1 \<and>
   heap (Memory_Init start_state) 0 = \<lparr>size_h = 10208, status = FREE, next_h = None, prev = None\<rparr> \<and>
   blocks (Memory_Init start_state) = [(0, 10208, FREE)]"
proof -
  have i: "is_initialized start_state = 0" by (simp add: start_state_def)
  have "(if is_initialized start_state = 0 then P else Q) = P" for P Q :: bool
    using i by simp
  from Memory_Init_idempotent [of start_state, unfolded this]
  have 1: "Memory_Init (Memory_Init start_state) = Memory_Init start_state"
    and 2: "Memory_Init start_state
           = start_state\<lparr>heap := (heap start_state)(0 := \<lparr>size_h = word_of_int MEMORY_POOL_SIZE - header_size,
                                      status = FREE, next_h = None, prev = None\<rparr>),
               first_block := Some 0, is_initialized := 1\<rparr>"
    and 3: "blocks (Memory_Init start_state) = [(0, MEMORY_POOL_SIZE - uint header_size, FREE)]"
    by blast+
  have 4: "(word_of_int MEMORY_POOL_SIZE - header_size :: size_t) = 10208"
    by (simp add: MEMORY_POOL_SIZE_def header_size_def)
  have 5: "MEMORY_POOL_SIZE - uint header_size = 10208"
    by (simp add: MEMORY_POOL_SIZE_def header_size_def)
  show ?thesis using i 1 3 unfolding 5 by (simp add: 2 4)
qed

text \<open>
  C8. \<^verbatim>\<open>My_Free\<close> of a null pointer returns the state unchanged and prints nothing.
  \<^verbatim>\<open>My_Free\<close> of a pointer whose header address (the pointer minus the header size)
  lies below the pool or at or beyond its end prints the error message and changes neither
  the heap, nor \<^verbatim>\<open>first_block\<close>, nor \<^verbatim>\<open>is_initialized\<close>.
\<close>

theorem My_Free_null_or_outside:
  "My_Free s None = s \<and>
   (a - uint header_size < 0 \<or> MEMORY_POOL_SIZE \<le> a - uint header_size \<longrightarrow>
      My_Free s (Some a) = s\<lparr>stdout := stdout s @ [pool_error]\<rparr> \<and>
      heap (My_Free s (Some a)) = heap s \<and>
      first_block (My_Free s (Some a)) = first_block s \<and>
      is_initialized (My_Free s (Some a)) = is_initialized s)"
  by (simp add: My_Free_def Let_def)

theorem My_Free_null_or_outside_witness:
  "(5 - uint header_size < 0 \<or> MEMORY_POOL_SIZE \<le> 5 - uint header_size) \<and>
   (10272 - uint header_size < 0 \<or> MEMORY_POOL_SIZE \<le> 10272 - uint header_size) \<and>
   My_Free (Memory_Init start_state) None = Memory_Init start_state \<and>
   heap (My_Free (Memory_Init start_state) (Some 5)) = heap (Memory_Init start_state) \<and>
   stdout (My_Free (Memory_Init start_state) (Some 5)) = [pool_error] \<and>
   heap (My_Free (Memory_Init start_state) (Some 10272)) = heap (Memory_Init start_state) \<and>
   stdout (My_Free (Memory_Init start_state) (Some 10272)) = [pool_error]"
  using My_Free_null_or_outside [of "Memory_Init start_state" 5]
    My_Free_null_or_outside [of "Memory_Init start_state" 10272]
  by (simp add: MEMORY_POOL_SIZE_def header_size_def Memory_Init_first start_state_def)

text \<open>
  C9. From the start state, \<^verbatim>\<open>Memory_Init\<close> and the allocations of 100, 200 and 300
  bytes return the data pointers at offsets 32, 164 and 396; the chain is well formed and
  has the three \<^verbatim>\<open>ALLOCATED\<close> blocks and the \<^verbatim>\<open>FREE\<close> remainder of 9512 bytes, and the
  three data regions are pairwise disjoint. After the release of the 200-byte pointer the
  chain has four blocks: the blocks of 100 and 300 bytes are \<^verbatim>\<open>ALLOCATED\<close>, and two
  blocks are \<^verbatim>\<open>FREE\<close>, the released block of 200 bytes, not merged because both its
  neighbours are \<^verbatim>\<open>ALLOCATED\<close>, and the remainder of 9512 bytes at the end of the pool.
\<close>

theorem scenario_A_B:
  "scenario_handles scenario_A = Some (Some 32, Some 164, Some 396) \<and>
   chain_inv (scenario_state scenario_A) \<and>
   chain_inv (scenario_state scenario_B) \<and>
   scenario_blocks scenario_A
     = Some [(0, 100, ALLOCATED), (132, 200, ALLOCATED), (364, 300, ALLOCATED), (696, 9512, FREE)] \<and>
   data_region (0, 100, ALLOCATED) = {32 ..< 132} \<and>
   data_region (132, 200, ALLOCATED) = {164 ..< 364} \<and>
   data_region (364, 300, ALLOCATED) = {396 ..< 696} \<and>
   data_region (0, 100, ALLOCATED) \<inter> data_region (132, 200, ALLOCATED) = {} \<and>
   data_region (0, 100, ALLOCATED) \<inter> data_region (364, 300, ALLOCATED) = {} \<and>
   data_region (132, 200, ALLOCATED) \<inter> data_region (364, 300, ALLOCATED) = {} \<and>
   scenario_blocks scenario_B
     = Some [(0, 100, ALLOCATED), (132, 200, FREE), (364, 300, ALLOCATED), (696, 9512, FREE)] \<and>
   map_option length (scenario_blocks scenario_B) = Some 4 \<and>
   map_option (count_status ALLOCATED) (scenario_blocks scenario_B) = Some 2 \<and>
   map_option (count_status FREE) (scenario_blocks scenario_B) = Some 2"
proof -
  have 1: "scenario_handles scenario_A = Some (Some 32, Some 164, Some 396)" by code_simp
  have 2: "scenario_blocks scenario_A
     = Some [(0, 100, ALLOCATED), (132, 200, ALLOCATED), (364, 300, ALLOCATED), (696, 9512, FREE)]"
    by code_simp
  have 3: "scenario_blocks scenario_B
     = Some [(0, 100, ALLOCATED), (132, 200, FREE), (364, 300, ALLOCATED), (696, 9512, FREE)]"
    by code_simp
  have 4: "data_region (0, 100, ALLOCATED) = {32 ..< 132}"
    "data_region (132, 200, ALLOCATED) = {164 ..< 364}"
    "data_region (364, 300, ALLOCATED) = {396 ..< 696}"
    by (simp_all add: data_region_def header_size_def)
  have 5: "{32 ..< 132} \<inter> {164 ..< 364} = ({} :: int set)"
    "{32 ..< 132} \<inter> {396 ..< 696} = ({} :: int set)"
    "{164 ..< 364} \<inter> {396 ..< 696} = ({} :: int set)" by auto
  have 6: "map_option length (scenario_blocks scenario_B) = Some 4"
    "map_option (count_status ALLOCATED) (scenario_blocks scenario_B) = Some 2"
    "map_option (count_status FREE) (scenario_blocks scenario_B) = Some 2"
    unfolding 3 by (simp_all add: count_status_def block_status_def)
  have 7: "chain_inv (scenario_state scenario_A)" "chain_inv (scenario_state scenario_B)"
    by code_simp+
  show ?thesis unfolding 4 using 1 2 3 5 6 7 by blast
qed

text \<open>
  The chain after the release does not have three \<^verbatim>\<open>ALLOCATED\<close> blocks and one
  \<^verbatim>\<open>FREE\<close> block.
\<close>

theorem scenario_B_counterexample:
  "\<not> (map_option (count_status ALLOCATED) (scenario_blocks scenario_B) = Some 3 \<and>
      map_option (count_status FREE) (scenario_blocks scenario_B) = Some 1)"
proof -
  have "scenario_blocks scenario_B
     = Some [(0, 100, ALLOCATED), (132, 200, FREE), (364, 300, ALLOCATED), (696, 9512, FREE)]"
    by code_simp
  then show ?thesis by (simp add: count_status_def block_status_def)
qed

text \<open>
  C10. For the three largest values of \<^verbatim>\<open>size_t\<close> the rounding \<^verbatim>\<open>(size + 3) & ~3\<close>
  wraps around to 0, and \<^verbatim>\<open>My_Malloc\<close> returns the null pointer through its size check,
  whatever the chain looks like (the chain is not read). The state it returns is the state
  after the implicit \<^verbatim>\<open>Memory_Init\<close>: the given state if that was initialized, and the
  freshly initialized state otherwise.
\<close>

theorem My_Malloc_size_wraps:
  "n \<in> {SIZE_MAX - 2, SIZE_MAX - 1, SIZE_MAX} \<Longrightarrow>
   (n + 3) AND NOT 3 = 0 \<and>
   My_Malloc s n = Some (None, Memory_Init s) \<and>
   (is_initialized s \<noteq> 0 \<longrightarrow> My_Malloc s n = Some (None, s))"
proof -
  assume n: "n \<in> {SIZE_MAX - 2, SIZE_MAX - 1, SIZE_MAX}"
  then have r: "(n + 3) AND NOT 3 = 0" by (auto simp: SIZE_MAX_def)
  have "(if is_initialized s = 0 then Memory_Init s else s) = Memory_Init s"
    by (simp add: Memory_Init_done)
  then have "My_Malloc s n = Some (None, Memory_Init s)"
    unfolding My_Malloc_def Let_def r by simp
  then show ?thesis using r by (simp add: Memory_Init_done)
qed

theorem My_Malloc_size_wraps_witness:
  "SIZE_MAX \<in> {SIZE_MAX - 2, SIZE_MAX - 1, SIZE_MAX} \<and>
   is_initialized (Memory_Init start_state) \<noteq> 0 \<and>
   My_Malloc (Memory_Init start_state) SIZE_MAX = Some (None, Memory_Init start_state)"
proof -
  have m: "SIZE_MAX \<in> {SIZE_MAX - 2, SIZE_MAX - 1, SIZE_MAX}" by simp
  have i: "is_initialized (Memory_Init start_state) \<noteq> 0"
    by (simp add: Memory_Init_first start_state_def)
  from My_Malloc_size_wraps [OF m, of "Memory_Init start_state"] i
  have "My_Malloc (Memory_Init start_state) SIZE_MAX = Some (None, Memory_Init start_state)"
    by blast
  then show ?thesis using m i by blast
qed

text \<open>
  The state does change when the allocator is not yet initialized: from the start state
  the call returns the null pointer together with the initialized state.
\<close>

theorem My_Malloc_size_wraps_counterexample:
  "My_Malloc start_state SIZE_MAX \<noteq> Some (None, start_state)"
proof -
  have "My_Malloc start_state SIZE_MAX = Some (None, Memory_Init start_state)"
    unfolding My_Malloc_def Let_def by (simp add: SIZE_MAX_def start_state_def)
  moreover have "is_initialized (Memory_Init start_state) \<noteq> is_initialized start_state"
    by (simp add: Memory_Init_first start_state_def)
  ultimately show ?thesis by auto
qed

end
